theory Spec2Isabelle
  imports Complex_Main "HOL-Library.Word" "HOL-Library.Log_Nat"
begin

unbundle bit_operations_syntax

section \<open>JavaScript numbers as the program uses them\<close>

text \<open>
  Every number of \<^verbatim>\<open>uuid.js\<close> is an IEEE double. The program computes with
  integers (field values, the timestamp, the counters), with the fraction returned by
  \<^verbatim>\<open>Math.random()\<close>, and with one fractional product in
  \<^verbatim>\<open>_getTimeFieldValues\<close>. Integers are modelled by \<open>int\<close>: sums and
  products of integers are exact in a double up to \<open>2 ^ 53\<close>, and every integer the
  program computes stays below that. Fractions are modelled by \<open>rat\<close>. A product with a
  power of two only moves the exponent and is exact; the one product that can be rounded,
  \<^verbatim>\<open>(ts / 0x100000000) * 10000\<close>, goes through \<open>round_double\<close> below.
  \<open>NaN\<close> is the value the random-integer primitive returns outside its range.
\<close>

datatype number = NaN | Num int

definition ToInt32 :: "int \<Rightarrow> int" where
  \<comment> \<open>ECMAScript \<^verbatim>\<open>ToInt32\<close> of an integer: modulo \<open>2 ^ 32\<close>, read as two's complement.\<close>
  "ToInt32 n = (n + 2 ^ 31) mod 2 ^ 32 - 2 ^ 31"

definition ToUint32 :: "int \<Rightarrow> int" where
  "ToUint32 n = n mod 2 ^ 32"

definition ToInteger :: "rat \<Rightarrow> int" where
  \<comment> \<open>The integer part of a fraction, rounding towards zero (the first step of \<^verbatim>\<open>ToInt32\<close>).\<close>
  "ToInteger q = (if 0 \<le> q then \<lfloor>q\<rfloor> else \<lceil>q\<rceil>)"

definition ToInt32_number :: "number \<Rightarrow> int" where
  \<comment> \<open>\<^verbatim>\<open>ToInt32\<close> sends \<open>NaN\<close> to 0.\<close>
  "ToInt32_number v = (case v of NaN \<Rightarrow> 0 | Num n \<Rightarrow> ToInt32 n)"

definition bit_and :: "int \<Rightarrow> int \<Rightarrow> int" where
  \<comment> \<open>\<^verbatim>\<open>a & b\<close>\<close>
  "bit_and a b = ToInt32 a AND ToInt32 b"

definition bit_or :: "int \<Rightarrow> int \<Rightarrow> int" where
  \<comment> \<open>\<^verbatim>\<open>a | b\<close>\<close>
  "bit_or a b = ToInt32 a OR ToInt32 b"

definition shift_left :: "int \<Rightarrow> int \<Rightarrow> int" where
  \<comment> \<open>\<^verbatim>\<open>a << b\<close>: the shift count is taken modulo 32.\<close>
  "shift_left a b = ToInt32 (push_bit (nat (b mod 32)) (ToInt32 a))"

definition shift_right :: "int \<Rightarrow> int \<Rightarrow> int" where
  \<comment> \<open>\<^verbatim>\<open>a >> b\<close>: sign-propagating.\<close>
  "shift_right a b = drop_bit (nat (b mod 32)) (ToInt32 a)"

definition shift_right_unsigned :: "int \<Rightarrow> int \<Rightarrow> int" where
  \<comment> \<open>\<^verbatim>\<open>a >>> b\<close>: zero-filling.\<close>
  "shift_right_unsigned a b = drop_bit (nat (b mod 32)) (ToUint32 a)"

definition remainder :: "int \<Rightarrow> int \<Rightarrow> int" where
  \<comment> \<open>\<^verbatim>\<open>a % b\<close> on integers: the result has the sign of the dividend.\<close>
  "remainder a b = sgn a * (\<bar>a\<bar> mod \<bar>b\<bar>)"

subsection \<open>The random source\<close>

text \<open>
  \<^verbatim>\<open>Math.random()\<close> is the only source of randomness. It is modelled by the
  sequence of its future results; a call returns the head and leaves the tail. A source is
  valid when every draw lies in \<open>[0, 1)\<close>.
\<close>

type_synonym random_source = "nat \<Rightarrow> rat"

definition Math_random :: "random_source \<Rightarrow> rat \<times> random_source" where
  "Math_random rs = (rs 0, \<lambda>i. rs (Suc i))"

definition valid_source :: "random_source \<Rightarrow> bool" where
  "valid_source rs = (\<forall>i. 0 \<le> rs i \<and> rs i < 1)"

definition constant_source :: "rat \<Rightarrow> random_source" where
  \<comment> \<open>The source whose every draw is \<open>r\<close>; it serves as a concrete input.\<close>
  "constant_source r = (\<lambda>_. r)"

definition getRandomInt :: "int \<Rightarrow> random_source \<Rightarrow> number \<times> random_source" where
  \<comment> \<open>\<^verbatim>\<open>UUID._getRandomInt\<close>\<close>
  "getRandomInt x rs =
    (if x < 0 then (NaN, rs)
     else if x \<le> 30 then
       (let (r, rs1) = Math_random rs
        in (Num (bit_or 0 (ToInteger (r * of_int (shift_left 1 x)))), rs1))
     else if x \<le> 53 then
       (let (r1, rs1) = Math_random rs;
            low = bit_or 0 (ToInteger (r1 * of_int (shift_left 1 30)));
            (r2, rs2) = Math_random rs1;
            high = bit_or 0 (ToInteger (r2 * of_int (shift_left 1 (x - 30))))
        in (Num (low + high * shift_left 1 30), rs2))
     else (NaN, rs))"

definition random_bits :: "rat \<Rightarrow> int \<Rightarrow> int" where
  \<comment> \<open>The expression \<^verbatim>\<open>0 | r * (1 << x)\<close> that \<open>getRandomInt\<close> applies to each draw.\<close>
  "random_bits r x = bit_or 0 (ToInteger (r * of_int (shift_left 1 x)))"

section \<open>Field codec\<close>

subsection \<open>Number to string\<close>

definition digit_char :: "nat \<Rightarrow> char" where
  "digit_char d = ''0123456789abcdefghijklmnopqrstuvwxyz'' ! d"

function digits :: "int \<Rightarrow> int \<Rightarrow> string" where
  \<comment> \<open>The digits of \<open>n \<ge> 0\<close> in the given radix, most significant first.\<close>
  "digits radix n =
    (if radix < 2 \<or> n < radix then [digit_char (nat n)]
     else digits radix (n div radix) @ [digit_char (nat (n mod radix))])"
  by pat_completeness auto
termination
proof (relation "measure (\<lambda>(radix, n). nat n)")
  show "wf (measure (\<lambda>(radix, n). nat n))" by simp
next
  fix radix n :: int
  assume a: "\<not> (radix < 2 \<or> n < radix)"
  then have "n div radix < n" by (intro int_div_less_self) auto
  then show "((radix, n div radix), radix, n) \<in> measure (\<lambda>(radix, n). nat n)"
    using a by simp
qed

declare digits.simps [simp del]

definition Number_toString :: "int \<Rightarrow> int \<Rightarrow> string" where
  \<comment> \<open>\<^verbatim>\<open>num.toString(radix)\<close> for an integer \<open>num\<close>: no leading zeros, a minus sign
      before the digits of a negative number.\<close>
  "Number_toString radix num =
    (if num < 0 then CHR ''-'' # digits radix (- num) else digits radix num)"

function align_loop :: "int \<Rightarrow> string \<Rightarrow> string \<Rightarrow> string" where
  \<comment> \<open>\<^verbatim>\<open>for (; i > 0; i >>>= 1, z += z) { if (i & 1) { hex = z + hex; } }\<close>\<close>
  "align_loop i z hex =
    (if i > 0
     then align_loop (shift_right_unsigned i 1) (z @ z) (if bit_and i 1 \<noteq> 0 then z @ hex else hex)
     else hex)"
  by pat_completeness auto
termination
proof (relation "measure (\<lambda>(i, z, hex). nat i)")
  show "wf (measure (\<lambda>(i, z, hex). nat i))" by simp
next
  fix i :: int and z hex :: string
  assume "0 < i"
  moreover have "i mod 2 ^ 32 \<le> i" using \<open>0 < i\<close> by (simp add: zmod_le_nonneg_dividend)
  ultimately have "(i mod 2 ^ 32) div 2 < i" by linarith
  then show "((shift_right_unsigned i 1, z @ z, if bit_and i 1 \<noteq> 0 then z @ hex else hex), i, z, hex)
      \<in> measure (\<lambda>(i, z, hex). nat i)"
    using \<open>0 < i\<close> by (simp add: shift_right_unsigned_def ToUint32_def drop_bit_eq_div)
qed

declare align_loop.simps [simp del]

definition getIntAligner :: "int \<Rightarrow> int \<Rightarrow> int \<Rightarrow> string" where
  \<comment> \<open>\<^verbatim>\<open>UUID._getIntAligner(radix)(num, length)\<close>\<close>
  "getIntAligner radix num len =
    (let hex = Number_toString radix num; i = len - int (length hex)
     in align_loop i ''0'' hex)"

subsection \<open>String to number\<close>

definition toLowerCase :: "char \<Rightarrow> char" where
  "toLowerCase c =
    (let n = (of_char c :: nat) in if 65 \<le> n \<and> n \<le> 90 then char_of (n + 32) else c)"

fun index_of :: "'a \<Rightarrow> 'a list \<Rightarrow> nat option" where
  "index_of x [] = None"
| "index_of x (y # ys) = (if x = y then Some 0 else map_option Suc (index_of x ys))"

definition digit_value :: "char \<Rightarrow> nat option" where
  \<comment> \<open>The value of a hexadecimal digit of either case; \<open>None\<close> for any other character.\<close>
  "digit_value c = index_of (toLowerCase c) ''0123456789abcdef''"

definition is_hex_digit :: "char \<Rightarrow> bool" where
  \<comment> \<open>The class \<^verbatim>\<open>[0-9a-f]\<close> under the \<^verbatim>\<open>i\<close> flag.\<close>
  "is_hex_digit c = (digit_value c \<noteq> None)"

definition is_space :: "char \<Rightarrow> bool" where
  "is_space c = ((of_char c :: nat) \<in> {9, 10, 11, 12, 13, 32})"

definition hex_value :: "string \<Rightarrow> int" where
  "hex_value ds =
    foldl (\<lambda>a c. case digit_value c of Some d \<Rightarrow> 16 * a + int d | None \<Rightarrow> a) 0 ds"

definition parseInt16 :: "string \<Rightarrow> number" where
  \<comment> \<open>\<^verbatim>\<open>parseInt(str, 16)\<close>: leading white space, a sign and a \<^verbatim>\<open>0x\<close> prefix are
      skipped, then the longest run of hexadecimal digits is read; without a digit the result
      is \<open>NaN\<close>. The result is exact for up to 13 digits.\<close>
  "parseInt16 str =
    (let s1 = dropWhile is_space str;
         sign = (if take 1 s1 = ''-'' then - 1 else 1);
         s2 = (if take 1 s1 = ''-'' \<or> take 1 s1 = ''+'' then drop 1 s1 else s1);
         s3 = (if take 2 s2 = ''0x'' \<or> take 2 s2 = ''0X'' then drop 2 s2 else s2);
         ds = takeWhile is_hex_digit s3
     in if ds = [] then NaN else Num (sign * hex_value ds))"

section \<open>The UUID object\<close>

record UUID =
  intFields :: "int list"
  bitFields :: "string list"
  hexFields :: "string list"
  version :: int
  bitString :: string
  hexString :: string

text \<open>
  \<^verbatim>\<open>FIELD_NAMES\<close> gives each index of the three field arrays a second name; the named
  properties hold the same values as the indexed ones.
\<close>

definition timeLow :: "UUID \<Rightarrow> int" where "timeLow u = intFields u ! 0"
definition timeMid :: "UUID \<Rightarrow> int" where "timeMid u = intFields u ! 1"
definition timeHiAndVersion :: "UUID \<Rightarrow> int" where "timeHiAndVersion u = intFields u ! 2"
definition clockSeqHiAndReserved :: "UUID \<Rightarrow> int" where "clockSeqHiAndReserved u = intFields u ! 3"
definition clockSeqLow :: "UUID \<Rightarrow> int" where "clockSeqLow u = intFields u ! 4"
definition node :: "UUID \<Rightarrow> int" where "node u = intFields u ! 5"

definition sizes :: "nat list" where
  "sizes = [32, 16, 16, 8, 8, 48]"

definition argument_or_zero :: "number list \<Rightarrow> nat \<Rightarrow> int" where
  \<comment> \<open>\<^verbatim>\<open>arguments[i] || 0\<close>: a missing argument, \<open>NaN\<close> and 0 are falsy.\<close>
  "argument_or_zero arguments i =
    (if i < length arguments then (case arguments ! i of NaN \<Rightarrow> 0 | Num n \<Rightarrow> n) else 0)"

definition parseInt_number :: "int \<Rightarrow> int" where
  \<comment> \<open>\<^verbatim>\<open>parseInt(n)\<close> of an integer \<open>n\<close> writes \<open>n\<close> in decimal and reads it back. This
      is \<open>n\<close> for \<open>\<bar>n\<bar> < 10 ^ 21\<close>, the range in which the decimal form has no exponent;
      every integer the script passes to the initializer lies in that range.\<close>
  "parseInt_number n = n"

definition init :: "number list \<Rightarrow> UUID" where
  \<comment> \<open>\<^verbatim>\<open>UUID.prototype._init\<close>\<close>
  "init arguments =
    (let ints = map (\<lambda>i. parseInt_number (argument_or_zero arguments i)) [0..<length sizes];
         bits = map (\<lambda>i. getIntAligner 2 (ints ! i) (int (sizes ! i))) [0..<length sizes];
         hexs = map (\<lambda>i. getIntAligner 16 (ints ! i) (int (sizes ! i div 4))) [0..<length sizes]
     in \<lparr>intFields = ints, bitFields = bits, hexFields = hexs,
         version = bit_and (shift_right (ints ! 2) 12) 0xF,
         bitString = concat bits,
         hexString = hexs ! 0 @ ''-'' @ hexs ! 1 @ ''-'' @ hexs ! 2
                     @ ''-'' @ hexs ! 3 @ hexs ! 4 @ ''-'' @ hexs ! 5\<rparr>)"

definition UUID_toString :: "UUID \<Rightarrow> string" where
  "UUID_toString u = hexString u"

definition equals :: "UUID \<Rightarrow> UUID option \<Rightarrow> bool" where
  \<comment> \<open>An argument that is not a UUID (here: \<open>None\<close>, the parser's \<^verbatim>\<open>null\<close>) is never equal.\<close>
  "equals this other =
    (case other of
       None \<Rightarrow> False
     | Some uuid \<Rightarrow> list_all (\<lambda>i. intFields this ! i = intFields uuid ! i) [0..<length (intFields this)])"

section \<open>Version 4 generator and parser\<close>

text \<open>
  A string is a list of 8-bit characters. A character outside ASCII matches no part of the
  parser's pattern, and the \<^verbatim>\<open>i\<close> flag relates only the letters \<open>a\<close> to \<open>f\<close> to
  their capitals, so \<open>toLowerCase\<close> needs to act on ASCII letters only.
\<close>

definition genV4 :: "random_source \<Rightarrow> UUID \<times> random_source" where
  "genV4 rs =
    (let (a1, rs1) = getRandomInt 32 rs;
         (a2, rs2) = getRandomInt 16 rs1;
         (r3, rs3) = getRandomInt 12 rs2;
         (r4, rs4) = getRandomInt 6 rs3;
         (a5, rs5) = getRandomInt 8 rs4;
         (a6, rs6) = getRandomInt 48 rs5
     in (init [a1, a2, Num (bit_or 0x4000 (ToInt32_number r3)),
               Num (bit_or 0x80 (ToInt32_number r4)), a5, a6], rs6))"

definition match_hex :: "nat \<Rightarrow> string \<Rightarrow> (string \<times> string) option" where
  \<comment> \<open>\<^verbatim>\<open>([0-9a-f]{n})\<close>: exactly \<open>n\<close> hexadecimal digits; the group and the rest.\<close>
  "match_hex n s =
    (if n \<le> length s \<and> list_all is_hex_digit (take n s) then Some (take n s, drop n s) else None)"

fun match_char :: "char \<Rightarrow> string \<Rightarrow> string option" where
  "match_char c [] = None"
| "match_char c (x # xs) = (if x = c then Some xs else None)"

definition exec_pattern :: "string \<Rightarrow> (string \<times> string \<times> string \<times> string \<times> string \<times> string) option" where
  \<comment> \<open>\<^verbatim>\<open>/^([0-9a-f]{8})-([0-9a-f]{4})-([0-9a-f]{4})-([0-9a-f]{2})([0-9a-f]{2})-([0-9a-f]{12})$/i\<close>:
      every part has a fixed length, so the match is a single left-to-right pass, each
      step handing the rest of the input to the next and any failure ending the match;
      \<^verbatim>\<open>$\<close> without the \<^verbatim>\<open>m\<close> flag is the end of the input.\<close>
  "exec_pattern s =
    Option.bind (match_hex 8 s) (\<lambda>(r1, s1).
    Option.bind (match_char CHR ''-'' s1) (\<lambda>s2.
    Option.bind (match_hex 4 s2) (\<lambda>(r2, s3).
    Option.bind (match_char CHR ''-'' s3) (\<lambda>s4.
    Option.bind (match_hex 4 s4) (\<lambda>(r3, s5).
    Option.bind (match_char CHR ''-'' s5) (\<lambda>s6.
    Option.bind (match_hex 2 s6) (\<lambda>(r4, s7).
    Option.bind (match_hex 2 s7) (\<lambda>(r5, s8).
    Option.bind (match_char CHR ''-'' s8) (\<lambda>s9.
    Option.bind (match_hex 12 s9) (\<lambda>(r6, s10).
    if s10 = [] then Some (r1, r2, r3, r4, r5, r6) else None))))))))))"

definition parse :: "string \<Rightarrow> UUID option" where
  \<comment> \<open>\<^verbatim>\<open>UUID.parse\<close>; \<open>None\<close> is \<^verbatim>\<open>null\<close>.\<close>
  "parse strId =
    (case exec_pattern strId of
       Some (r1, r2, r3, r4, r5, r6) \<Rightarrow>
         Some (init [parseInt16 r1, parseInt16 r2, parseInt16 r3,
                     parseInt16 r4, parseInt16 r5, parseInt16 r6])
     | None \<Rightarrow> None)"

section \<open>Version 1 generator\<close>

subsection \<open>Rounding to a double\<close>

text \<open>
  The exact result of an operation on doubles is a dyadic fraction \<open>a / 2 ^ j\<close>. The double
  that the operation returns keeps 53 significant bits of \<open>a\<close>, rounded to nearest with ties
  to the even significand. The exponent range of a double plays no part for the magnitudes
  that occur here.
\<close>

definition round_half_even :: "int \<Rightarrow> nat \<Rightarrow> int" where
  \<comment> \<open>\<open>m / 2 ^ k\<close> rounded to the nearest integer, a tie to the even one, for \<open>0 \<le> m\<close>.\<close>
  "round_half_even m k =
    (let q = m div 2 ^ k; r = m mod 2 ^ k
     in if 2 * r < 2 ^ k then q else if 2 ^ k < 2 * r then q + 1
        else if even q then q else q + 1)"

definition round53 :: "int \<Rightarrow> int" where
  \<comment> \<open>The nearest integer with at most 53 significant bits.\<close>
  "round53 m =
    (let k = bitlen \<bar>m\<bar> - 53
     in if k \<le> 0 then m else sgn m * round_half_even \<bar>m\<bar> (nat k) * 2 ^ nat k)"

definition round_double :: "rat \<Rightarrow> rat" where
  "round_double q = (let (a, b) = quotient_of q in of_int (round53 a) / of_int b)"

subsection \<open>Time fields\<close>

definition Date_UTC_1582_10_15 :: int where
  \<comment> \<open>\<^verbatim>\<open>Date.UTC(1582, 9, 15)\<close>: 15 October 1582 is 141427 days before 1 January 1970.\<close>
  "Date_UTC_1582_10_15 = - (141427 * 86400000)"

record TimeFieldValues =
  tf_low :: int
  tf_mid :: int
  tf_hi :: int
  tf_timestamp :: int

definition getTimeFieldValues :: "int \<Rightarrow> TimeFieldValues" where
  \<comment> \<open>\<^verbatim>\<open>UUID._getTimeFieldValues\<close>; the fields are \<^verbatim>\<open>low\<close>, \<^verbatim>\<open>mid\<close>,
      \<^verbatim>\<open>hi\<close> and \<^verbatim>\<open>timestamp\<close>.\<close>
  "getTimeFieldValues time =
    (let ts = time - Date_UTC_1582_10_15;
         hm = bit_and (ToInteger (round_double (round_double (of_int ts / 0x100000000) * 10000)))
                      0xFFFFFFF
     in \<lparr>tf_low = remainder (bit_and ts 0xFFFFFFF * 10000) 0x100000000,
         tf_mid = bit_and hm 0xFFFF, tf_hi = shift_right_unsigned hm 16, tf_timestamp = ts\<rparr>)"

subsection \<open>Generator state\<close>

record UUIDState =
  timestamp :: int
  sequence :: number
  st_node :: number
  tick :: int

definition tsRatio :: rat where
  "tsRatio = 1 / 8"

definition increment :: "number \<Rightarrow> number" where
  \<comment> \<open>\<^verbatim>\<open>v++\<close>\<close>
  "increment v = (case v of NaN \<Rightarrow> NaN | Num n \<Rightarrow> Num (n + 1))"

definition add_number :: "int \<Rightarrow> number \<Rightarrow> number" where
  \<comment> \<open>\<^verbatim>\<open>a + v\<close>\<close>
  "add_number a v = (case v of NaN \<Rightarrow> NaN | Num n \<Rightarrow> Num (a + n))"

definition UUIDState_new :: "random_source \<Rightarrow> UUIDState \<times> random_source" where
  \<comment> \<open>\<^verbatim>\<open>new function UUIDState() { ... }\<close>, run once when the script is loaded.\<close>
  "UUIDState_new rs =
    (let (s, rs1) = getRandomInt 14 rs;
         (a, rs2) = getRandomInt 8 rs1;
         (b, rs3) = getRandomInt 40 rs2
     in (\<lparr>timestamp = 0, sequence = s,
          st_node = add_number (bit_or (ToInt32_number a) 1 * 0x10000000000) b,
          tick = 0\<rparr>, rs3))"

definition genV1 :: "int \<Rightarrow> random_source \<Rightarrow> UUIDState \<Rightarrow> UUID \<times> random_source \<times> UUIDState" where
  \<comment> \<open>\<^verbatim>\<open>UUID.genV1\<close>; \<open>now\<close> is the reading of the wall clock, \<open>st0\<close> the state
      \<^verbatim>\<open>UUID._state\<close> before the call. The state after the call is returned.\<close>
  "genV1 now rs st0 =
    (let (st1, rs1) =
           (if now \<noteq> timestamp st0 then
              (let st = (if now < timestamp st0 then st0\<lparr>sequence := increment (sequence st0)\<rparr>
                         else st0)
               in (st\<lparr>timestamp := now, tick := 0\<rparr>, rs))
            else
              (let (r, rs') = Math_random rs
               in if r < tsRatio \<and> tick st0 < 9999 then (st0\<lparr>tick := tick st0 + 1\<rparr>, rs')
                  else (st0\<lparr>sequence := increment (sequence st0)\<rparr>, rs')));
         tf = getTimeFieldValues (timestamp st1);
         tl = tf_low tf + tick st1;
         thav = bit_or (bit_and (tf_hi tf) 0xFFF) 0x1000;
         seq = bit_and (ToInt32_number (sequence st1)) 0x3FFF;
         st2 = st1\<lparr>sequence := Num seq\<rparr>;
         cshar = bit_or (shift_right_unsigned seq 8) 0x80;
         csl = bit_and seq 0xFF
     in (init [Num tl, Num (tf_mid tf), Num thav, Num cshar, Num csl, st_node st2], rs1, st2))"

definition next_state :: "int \<Rightarrow> random_source \<Rightarrow> UUIDState \<Rightarrow> UUIDState \<times> random_source" where
  \<comment> \<open>The first statement of \<open>genV1\<close>, the update of the state, under a name of its own for
      the proofs.\<close>
  "next_state now rs st0 =
    (if now \<noteq> timestamp st0 then
       (let st = (if now < timestamp st0 then st0\<lparr>sequence := increment (sequence st0)\<rparr>
                  else st0)
        in (st\<lparr>timestamp := now, tick := 0\<rparr>, rs))
     else
       (let (r, rs') = Math_random rs
        in if r < tsRatio \<and> tick st0 < 9999 then (st0\<lparr>tick := tick st0 + 1\<rparr>, rs')
           else (st0\<lparr>sequence := increment (sequence st0)\<rparr>, rs')))"

fun repeat_genV1 :: "nat \<Rightarrow> int \<Rightarrow> random_source \<Rightarrow> UUIDState \<Rightarrow> UUID \<times> random_source \<times> UUIDState" where
  \<comment> \<open>A caller: \<open>n + 1\<close> successive calls of \<open>genV1\<close> that all read the same clock value; the
      result of the last call.\<close>
  "repeat_genV1 0 now rs st = genV1 now rs st"
| "repeat_genV1 (Suc n) now rs st =
    (let (u, rs', st') = genV1 now rs st in repeat_genV1 n now rs' st')"

definition clock_sequence :: "UUID \<Rightarrow> int" where
  \<comment> \<open>The 14-bit clock sequence a UUID encodes:
      \<^verbatim>\<open>((clockSeqHiAndReserved & 0x3F) << 8) | clockSeqLow\<close>.\<close>
  "clock_sequence u = bit_or (shift_left (bit_and (clockSeqHiAndReserved u) 0x3F) 8) (clockSeqLow u)"

section \<open>What the specification says, in its own words\<close>

definition hex_group :: "nat \<Rightarrow> string \<Rightarrow> bool" where
  \<comment> \<open>"\<open>n\<close> hex digits (case-insensitive)"\<close>
  "hex_group n g = (length g = n \<and> set g \<subseteq> set ''0123456789abcdefABCDEF'')"

definition canonical_pattern :: "string \<Rightarrow> bool" where
  \<comment> \<open>"8 hex digits, -, 4 hex digits, -, 4 hex digits, -, 2 hex digits, 2 hex digits, -,
      12 hex digits"\<close>
  "canonical_pattern s =
    (\<exists>g1 g2 g3 g4 g5 g6.
       s = g1 @ ''-'' @ g2 @ ''-'' @ g3 @ ''-'' @ g4 @ g5 @ ''-'' @ g6
       \<and> hex_group 8 g1 \<and> hex_group 4 g2 \<and> hex_group 4 g3
       \<and> hex_group 2 g4 \<and> hex_group 2 g5 \<and> hex_group 12 g6)"

definition width_invariant :: "UUID \<Rightarrow> bool" where
  \<comment> \<open>"each integer field value is within \<open>[0, 2 ^ width)\<close> for its declared width"\<close>
  "width_invariant u =
    (length (intFields u) = 6
     \<and> list_all (\<lambda>i. 0 \<le> intFields u ! i \<and> intFields u ! i < 2 ^ (sizes ! i)) [0..<6])"

section \<open>Properties\<close>

subsection \<open>Bit operations on small non-negative integers\<close>

lemma ToInt32_id: "0 \<le> n \<Longrightarrow> n < 2 ^ 31 \<Longrightarrow> ToInt32 n = n"
  by (simp add: ToInt32_def)

lemma shift_left_one: "0 \<le> x \<Longrightarrow> x \<le> 30 \<Longrightarrow> shift_left 1 x = 2 ^ nat x"
proof -
  assume a: "0 \<le> x" "x \<le> 30"
  have p: "(2::int) ^ nat x \<le> 2 ^ 30"
    using a by (intro power_increasing) auto
  have "x mod 32 = x" using a by simp
  moreover have "ToInt32 (2 ^ nat x) = 2 ^ nat x"
    using p by (intro ToInt32_id) auto
  ultimately show ?thesis
    by (simp add: shift_left_def ToInt32_id push_bit_eq_mult)
qed

lemma bit_or_zero: "0 \<le> n \<Longrightarrow> n < 2 ^ 31 \<Longrightarrow> bit_or 0 n = n"
  by (simp add: bit_or_def ToInt32_id)

subsection \<open>The random-integer primitive\<close>

lemma ToInteger_scaled:
  assumes "0 \<le> r" "r < 1"
  shows "0 \<le> ToInteger (r * of_int (2 ^ k))" "ToInteger (r * of_int (2 ^ k)) < 2 ^ k"
proof -
  have nn: "0 \<le> r * of_int (2 ^ k)" using assms by simp
  then show "0 \<le> ToInteger (r * of_int (2 ^ k))" by (simp add: ToInteger_def)
  have "r * of_int (2 ^ k) < of_int (2 ^ k)" using assms by simp
  then have "\<lfloor>r * of_int (2 ^ k)\<rfloor> < 2 ^ k" by (simp only: floor_less_iff)
  then show "ToInteger (r * of_int (2 ^ k)) < 2 ^ k" using nn by (simp add: ToInteger_def)
qed

lemma random_bits_eq:
  assumes "0 \<le> r" "r < 1" "0 \<le> x" "x \<le> 30"
  shows "random_bits r x = \<lfloor>r * 2 ^ nat x\<rfloor>" "0 \<le> random_bits r x" "random_bits r x < 2 ^ nat x"
proof -
  let ?t = "ToInteger (r * of_int (2 ^ nat x))"
  have b: "0 \<le> ?t" "?t < 2 ^ nat x" using ToInteger_scaled[OF assms(1,2)] by blast+
  have "(2::int) ^ nat x \<le> 2 ^ 30" using assms by (intro power_increasing) auto
  then have "?t < 2 ^ 31" using b by simp
  then have e: "random_bits r x = ?t"
    using b by (simp add: random_bits_def shift_left_one assms bit_or_zero)
  show "0 \<le> random_bits r x" "random_bits r x < 2 ^ nat x" using e b by simp_all
  have "0 \<le> r * of_int (2 ^ nat x)" using assms by simp
  then show "random_bits r x = \<lfloor>r * 2 ^ nat x\<rfloor>" using e by (simp add: ToInteger_def)
qed

lemma getRandomInt_small:
  assumes "0 \<le> x" "x \<le> 30"
  shows "fst (getRandomInt x rs) = Num (random_bits (rs 0) x)"
  using assms by (simp add: getRandomInt_def Math_random_def random_bits_def)

lemma getRandomInt_large:
  assumes "30 < x" "x \<le> 53"
  shows "fst (getRandomInt x rs) = Num (random_bits (rs 0) 30 + random_bits (rs 1) (x - 30) * 2 ^ 30)"
  using assms by (simp add: getRandomInt_def Math_random_def random_bits_def Let_def shift_left_one)

lemma getRandomInt_bounds:
  assumes "valid_source rs" "0 \<le> x" "x \<le> 53"
  shows "\<exists>n. fst (getRandomInt x rs) = Num n \<and> 0 \<le> n \<and> n < 2 ^ nat x"
proof (cases "x \<le> 30")
  have v: "0 \<le> rs i" "rs i < 1" for i using assms(1) by (simp_all add: valid_source_def)
  case True
  then show ?thesis
    using assms(2) random_bits_eq(2,3) [OF v(1) v(2), of x 0] by (simp add: getRandomInt_small)
next
  have v: "0 \<le> rs i" "rs i < 1" for i using assms(1) by (simp_all add: valid_source_def)
  case False
  then have x: "30 < x" "x \<le> 53" using assms(3) by auto
  let ?lo = "random_bits (rs 0) 30" and ?hi = "random_bits (rs 1) (x - 30)"
  have lo: "0 \<le> ?lo" "?lo < 2 ^ 30" using random_bits_eq(2,3) [OF v(1) v(2), of 30 0] by simp_all
  have hi: "0 \<le> ?hi" "?hi < 2 ^ nat (x - 30)"
    using x random_bits_eq(2,3) [OF v(1) v(2), of "x - 30" 1] by simp_all
  have "?hi + 1 \<le> 2 ^ nat (x - 30)" using hi by simp
  then have "(?hi + 1) * 2 ^ 30 \<le> 2 ^ nat (x - 30) * (2 ^ 30 :: int)"
    by (rule mult_right_mono) simp
  also have "\<dots> = 2 ^ (nat (x - 30) + 30)"
    by (simp only: power_add)
  also have "nat (x - 30) + 30 = nat x" using x by simp
  finally have "?lo + ?hi * 2 ^ 30 < 2 ^ nat x" using lo by (simp add: algebra_simps)
  moreover have "0 \<le> ?lo + ?hi * 2 ^ 30" using lo hi by simp
  ultimately show ?thesis using x by (simp add: getRandomInt_large)
qed

lemma valid_source_snd: "valid_source rs \<Longrightarrow> valid_source (snd (getRandomInt x rs))"
  by (simp add: getRandomInt_def valid_source_def Math_random_def Let_def)

text \<open>
  Claim C8. For every width \<open>x\<close> in \<open>[0, 53]\<close> and every valid random source,
  \<open>getRandomInt x\<close> returns an integer in \<open>[0, 2 ^ x)\<close>; for \<open>x\<close> in \<open>(30, 53]\<close> it is
  \<open>low + high * 2 ^ 30\<close>, with \<open>low\<close> the first draw scaled to 30 bits and \<open>high\<close> the
  second draw scaled to \<open>x - 30\<close> bits; for \<open>x < 0\<close> or \<open>x > 53\<close> it returns \<open>NaN\<close>.
\<close>

theorem getRandomInt_range:
  assumes "valid_source rs"
  shows "(0 \<le> x \<and> x \<le> 53 \<longrightarrow> (\<exists>n. fst (getRandomInt x rs) = Num n \<and> 0 \<le> n \<and> n < 2 ^ nat x))
       \<and> (30 < x \<and> x \<le> 53 \<longrightarrow>
            fst (getRandomInt x rs) = Num (\<lfloor>rs 0 * 2 ^ 30\<rfloor> + \<lfloor>rs 1 * 2 ^ nat (x - 30)\<rfloor> * 2 ^ 30))
       \<and> (x < 0 \<or> 53 < x \<longrightarrow> fst (getRandomInt x rs) = NaN)"
proof (intro conjI impI)
  have v: "0 \<le> rs i" "rs i < 1" for i using assms by (simp_all add: valid_source_def)
  show "fst (getRandomInt x rs) = NaN" if "x < 0 \<or> 53 < x"
    using that by (auto simp: getRandomInt_def)
  show "fst (getRandomInt x rs) = Num (\<lfloor>rs 0 * 2 ^ 30\<rfloor> + \<lfloor>rs 1 * 2 ^ nat (x - 30)\<rfloor> * 2 ^ 30)"
    if "30 < x \<and> x \<le> 53"
    using that random_bits_eq(1) [OF v(1) v(2), of 30 0] random_bits_eq(1) [OF v(1) v(2), of "x - 30" 1]
    by (simp add: getRandomInt_large)
  show "\<exists>n. fst (getRandomInt x rs) = Num n \<and> 0 \<le> n \<and> n < 2 ^ nat x" if "0 \<le> x \<and> x \<le> 53"
    using assms that by (intro getRandomInt_bounds) simp_all
qed

theorem getRandomInt_range_witness:
  "valid_source (constant_source (1 / 2))
   \<and> fst (getRandomInt 40 (constant_source (1 / 2))) = Num 550292684800
   \<and> (550292684800 :: int) < 2 ^ 40 \<and> fst (getRandomInt 54 (constant_source (1 / 2))) = NaN"
proof -
  have v: "valid_source (constant_source (1 / 2))"
    by (simp add: valid_source_def constant_source_def)
  show ?thesis
    using v getRandomInt_range [OF v, of 40] getRandomInt_range [OF v, of 54]
    by (simp add: constant_source_def)
qed

subsection \<open>Characters and digits\<close>

lemma all_char_facts:
  "list_all (\<lambda>c.
      (is_hex_digit c \<longleftrightarrow> c \<in> set ''0123456789abcdefABCDEF'')
      \<and> (is_hex_digit c \<longrightarrow> \<not> is_space c \<and> c \<noteq> CHR ''-'' \<and> c \<noteq> CHR ''+'' \<and> c \<noteq> CHR ''x'' \<and> c \<noteq> CHR ''X'')
      \<and> (case digit_value c of None \<Rightarrow> True | Some d \<Rightarrow> d < 16 \<and> digit_char d = toLowerCase c))
    Enum.enum"
  by code_simp

lemma char_facts:
  "is_hex_digit c \<longleftrightarrow> c \<in> set ''0123456789abcdefABCDEF''"
  "is_hex_digit c \<Longrightarrow> \<not> is_space c \<and> c \<noteq> CHR ''-'' \<and> c \<noteq> CHR ''+'' \<and> c \<noteq> CHR ''x'' \<and> c \<noteq> CHR ''X''"
  "digit_value c = Some d \<Longrightarrow> d < 16 \<and> digit_char d = toLowerCase c"
proof -
  have "c \<in> set Enum.enum" by (simp add: enum_UNIV)
  then have f: "(is_hex_digit c \<longleftrightarrow> c \<in> set ''0123456789abcdefABCDEF'')
      \<and> (is_hex_digit c \<longrightarrow> \<not> is_space c \<and> c \<noteq> CHR ''-'' \<and> c \<noteq> CHR ''+'' \<and> c \<noteq> CHR ''x'' \<and> c \<noteq> CHR ''X'')
      \<and> (case digit_value c of None \<Rightarrow> True | Some d \<Rightarrow> d < 16 \<and> digit_char d = toLowerCase c)"
    using all_char_facts unfolding list_all_iff by blast
  show "is_hex_digit c \<longleftrightarrow> c \<in> set ''0123456789abcdefABCDEF''" using f by blast
  show "is_hex_digit c \<Longrightarrow> \<not> is_space c \<and> c \<noteq> CHR ''-'' \<and> c \<noteq> CHR ''+'' \<and> c \<noteq> CHR ''x'' \<and> c \<noteq> CHR ''X''"
    using f by blast
  show "digit_value c = Some d \<Longrightarrow> d < 16 \<and> digit_char d = toLowerCase c"
    using f by simp
qed

lemma all_digit_facts:
  "list_all (\<lambda>d. digit_value (digit_char d) = Some d \<and> toLowerCase (digit_char d) = digit_char d) [0..<16]"
  by code_simp

lemma digit_facts:
  assumes "d < 16"
  shows "digit_value (digit_char d) = Some d" "toLowerCase (digit_char d) = digit_char d"
    "is_hex_digit (digit_char d)"
proof -
  have "d \<in> set [0..<16]" using assms by simp
  then have f: "digit_value (digit_char d) = Some d \<and> toLowerCase (digit_char d) = digit_char d"
    using all_digit_facts unfolding list_all_iff by blast
  then show "digit_value (digit_char d) = Some d" "toLowerCase (digit_char d) = digit_char d"
    "is_hex_digit (digit_char d)"
    by (simp_all add: is_hex_digit_def)
qed

subsection \<open>Padding\<close>

lemma ToInt32_one: "ToInt32 1 = 1"
  by (rule ToInt32_id) simp_all

lemma ToInt32_parity: "ToInt32 i mod 2 = i mod 2"
proof -
  have e: "even ((2::int) ^ 31)" by simp
  have "ToInt32 i mod 2 = ((i + 2 ^ 31) mod 2 ^ 32 - 2 ^ 31) mod 2"
    by (simp only: ToInt32_def)
  also have "\<dots> = ((i + 2 ^ 31) mod 2 ^ 32) mod 2"
    using e by (metis dvd_imp_mod_0 mod_diff_right_eq diff_zero)
  also have "\<dots> = (i + 2 ^ 31) mod 2"
    by (rule mod_mod_cancel) simp
  also have "\<dots> = i mod 2"
    using e by (metis dvd_imp_mod_0 mod_add_right_eq add.right_neutral)
  finally show ?thesis .
qed

lemma bit_and_one: "bit_and i 1 = i mod 2"
  by (simp only: bit_and_def ToInt32_one and_one_eq ToInt32_parity)

lemma shift_right_unsigned_one: "0 \<le> i \<Longrightarrow> i < 2 ^ 32 \<Longrightarrow> shift_right_unsigned i 1 = i div 2"
  by (simp add: shift_right_unsigned_def ToUint32_def drop_bit_eq_div)

lemma align_loop_replicate:
  "0 \<le> i \<Longrightarrow> i < 2 ^ 32 \<Longrightarrow> z = replicate k c \<Longrightarrow> align_loop i z hex = replicate (nat i * k) c @ hex"
proof (induction i z hex arbitrary: k rule: align_loop.induct)
  case (1 i z hex)
  show ?case
  proof (cases "0 < i")
    case False
    then have "i = 0" using "1.prems" by simp
    then show ?thesis by (simp add: align_loop.simps)
  next
    case True
    let ?hex = "if bit_and i 1 \<noteq> 0 then z @ hex else hex"
    have zz: "z @ z = replicate (2 * k) c"
      using "1.prems"(3) by (simp add: replicate_add [symmetric] mult_2)
    have "align_loop (shift_right_unsigned i 1) (z @ z) ?hex
        = replicate (nat (shift_right_unsigned i 1) * (2 * k)) c @ ?hex"
      using "1.prems" True
      by (intro "1.IH" [OF True _ _ zz]) (simp_all add: shift_right_unsigned_one)
    then have a: "align_loop i z hex = replicate (nat (i div 2) * (2 * k)) c @ ?hex"
      using True "1.prems" by (subst align_loop.simps) (simp add: shift_right_unsigned_one)
    have "int (2 * nat (i div 2) + nat (i mod 2)) = i" using True by simp
    then have n: "nat i = 2 * nat (i div 2) + nat (i mod 2)" by (metis nat_int)
    show ?thesis
    proof (cases "i mod 2 = 0")
      case True
      then have "nat i * k = nat (i div 2) * (2 * k)" using n by simp
      then have "replicate (nat i * k) c = replicate (nat (i div 2) * (2 * k)) c"
        by (simp only:)
      then show ?thesis using a True by (simp only: bit_and_one) simp
    next
      case False
      then have o: "i mod 2 = 1" by presburger
      then have "nat i * k = nat (i div 2) * (2 * k) + k" using n by (simp add: algebra_simps)
      then have "replicate (nat i * k) c = replicate (nat (i div 2) * (2 * k)) c @ z"
        using "1.prems"(3) by (simp only: replicate_add)
      then show ?thesis using a o by (simp add: bit_and_one)
    qed
  qed
qed

lemma align_loop_nonpositive: "i \<le> 0 \<Longrightarrow> align_loop i z hex = hex"
  by (subst align_loop.simps) simp

lemma getIntAligner_pad:
  assumes "len < 2 ^ 32"
  shows "getIntAligner radix num len
    = replicate (nat (len - int (length (Number_toString radix num)))) CHR ''0'' @ Number_toString radix num"
proof -
  let ?hex = "Number_toString radix num"
  let ?i = "len - int (length ?hex)"
  have "align_loop ?i ''0'' ?hex = replicate (nat ?i) CHR ''0'' @ ?hex"
  proof (cases "0 \<le> ?i")
    case True
    moreover have "?i < 2 ^ 32" using assms by linarith
    moreover have "''0'' = replicate 1 CHR ''0''" by simp
    ultimately have "align_loop ?i ''0'' ?hex = replicate (nat ?i * 1) CHR ''0'' @ ?hex"
      by (rule align_loop_replicate)
    then show ?thesis by (simp only: mult_1_right)
  next
    case False
    then show ?thesis by (simp add: align_loop_nonpositive)
  qed
  then show ?thesis by (simp only: getIntAligner_def Let_def)
qed


subsection \<open>Hexadecimal digits of a number\<close>

lemma hex_value_snoc:
  "hex_value (ds @ [c]) = (case digit_value c of Some d \<Rightarrow> 16 * hex_value ds + int d | None \<Rightarrow> hex_value ds)"
  by (simp add: hex_value_def split: option.split)

lemma hex_value_Nil: "hex_value [] = 0"
  by (simp add: hex_value_def)

lemma hex_value_zeros: "hex_value (replicate m CHR ''0'' @ ds) = hex_value ds"
proof -
  have z: "digit_value CHR ''0'' = Some 0" by code_simp
  have "foldl (\<lambda>a c. case digit_value c of Some d \<Rightarrow> 16 * a + int d | None \<Rightarrow> a) 0 (replicate m CHR ''0'') = 0"
    by (induction m) (simp_all add: z)
  then show ?thesis by (simp add: hex_value_def)
qed

lemma digits_small: "0 \<le> n \<Longrightarrow> n < 16 \<Longrightarrow> digits 16 n = [digit_char (nat n)]"
  by (subst digits.simps) simp

lemma digits_step:
  "16 \<le> n \<Longrightarrow> digits 16 n = digits 16 (n div 16) @ [digit_char (nat (n mod 16))]"
  by (subst digits.simps) simp

lemma digits_hex:
  "0 \<le> n \<Longrightarrow> digits 16 n \<noteq> [] \<and> list_all is_hex_digit (digits 16 n) \<and> hex_value (digits 16 n) = n"
proof (induction "16 :: int" n rule: digits.induct)
  case (1 n)
  show ?case
  proof (cases "n < 16")
    case True
    then have "nat n < 16" using "1.prems" by simp
    then show ?thesis
      using "1.prems" True digit_facts [of "nat n"]
      by (simp add: digits_small hex_value_def)
  next
    case False
    then have ih: "digits 16 (n div 16) \<noteq> [] \<and> list_all is_hex_digit (digits 16 (n div 16))
        \<and> hex_value (digits 16 (n div 16)) = n div 16"
      using "1.prems" by (intro "1.hyps") simp_all
    have "nat (n mod 16) < 16" by (simp add: nat_less_iff)
    then show ?thesis
      using False ih digit_facts [of "nat (n mod 16)"]
      by (simp add: digits_step hex_value_snoc)
  qed
qed

lemma length_digits:
  "0 \<le> n \<Longrightarrow> n < 16 ^ k \<Longrightarrow> 0 < k \<Longrightarrow> length (digits 16 n) \<le> k"
proof (induction "16 :: int" n arbitrary: k rule: digits.induct)
  case (1 n)
  show ?case
  proof (cases "n < 16")
    case True
    then show ?thesis using "1.prems" by (simp add: digits_small)
  next
    case False
    then obtain j where k: "k = Suc j" "0 < j"
      using "1.prems" by (cases k; cases "k - 1") auto
    have "16 * (n div 16) \<le> n" by (simp add: algebra_simps)
    moreover have "n < 16 * 16 ^ j" using "1.prems"(2) k by simp
    ultimately have "n div 16 < 16 ^ j" by linarith
    then have "length (digits 16 (n div 16)) \<le> j"
      using False "1.prems" k by (intro "1.hyps") simp_all
    then show ?thesis using False k by (simp add: digits_step)
  qed
qed

lemma Number_toString_nonneg: "0 \<le> n \<Longrightarrow> Number_toString radix n = digits radix n"
  by (simp add: Number_toString_def)

lemma zero_is_hex: "is_hex_digit CHR ''0''"
  by code_simp

lemma hex_aligned:
  assumes "0 \<le> n" "n < 16 ^ k" "0 < k" "int k < 2 ^ 32"
  shows "length (getIntAligner 16 n (int k)) = k"
    and "list_all is_hex_digit (getIntAligner 16 n (int k))"
    and "hex_value (getIntAligner 16 n (int k)) = n"
proof -
  let ?ds = "digits 16 n"
  have l: "length ?ds \<le> k" using assms by (intro length_digits)
  have d: "list_all is_hex_digit ?ds" "hex_value ?ds = n" using digits_hex [OF assms(1)] by simp_all
  have e: "getIntAligner 16 n (int k) = replicate (k - length ?ds) CHR ''0'' @ ?ds"
    using l by (simp add: getIntAligner_pad [OF assms(4)] Number_toString_nonneg assms(1)
        nat_diff_distrib' flip: of_nat_diff)
  show "length (getIntAligner 16 n (int k)) = k" using e l by simp
  show "list_all is_hex_digit (getIntAligner 16 n (int k))"
    using e d(1) zero_is_hex by (auto simp: list_all_iff)
  show "hex_value (getIntAligner 16 n (int k)) = n"
    using e d(2) by (simp add: hex_value_zeros)
qed

lemma parseInt16_hex:
  assumes "g \<noteq> []" "list_all is_hex_digit g"
  shows "parseInt16 g = Num (hex_value g)"
proof -
  obtain c cs where g: "g = c # cs" using assms(1) by (cases g) auto
  have c: "\<not> is_space c" "c \<noteq> CHR ''-''" "c \<noteq> CHR ''+''"
    using assms(2) g char_facts(2) [of c] by simp_all
  have two: "take 2 g \<noteq> ''0x''" "take 2 g \<noteq> ''0X''"
  proof -
    show "take 2 g \<noteq> ''0x''"
    proof (cases cs)
      case Nil
      then show ?thesis using g by simp
    next
      case (Cons c' cs')
      then have "c' \<noteq> CHR ''x''" using assms(2) g char_facts(2) [of c'] by simp
      then show ?thesis using g Cons by simp
    qed
    show "take 2 g \<noteq> ''0X''"
    proof (cases cs)
      case Nil
      then show ?thesis using g by simp
    next
      case (Cons c' cs')
      then have "c' \<noteq> CHR ''X''" using assms(2) g char_facts(2) [of c'] by simp
      then show ?thesis using g Cons by simp
    qed
  qed
  have s1: "dropWhile is_space g = g" using g c(1) by simp
  have one: "take 1 g \<noteq> ''-''" "take 1 g \<noteq> ''+''" using g c by simp_all
  have tw: "takeWhile is_hex_digit g = g"
    using assms(2) by (simp add: takeWhile_eq_all_conv list_all_iff)
  have "parseInt16 g
      = (if takeWhile is_hex_digit g = [] then NaN else Num (1 * hex_value (takeWhile is_hex_digit g)))"
    unfolding parseInt16_def Let_def s1 using one two by (simp only: if_False simp_thms)
  then show ?thesis unfolding tw using assms(1) by simp
qed

lemma digit_char_zero: "digit_char 0 = CHR ''0''"
  by (simp add: digit_char_def)

lemma hex_digit_value: "is_hex_digit c \<Longrightarrow> \<exists>d. digit_value c = Some d \<and> d < 16 \<and> digit_char d = toLowerCase c"
  using char_facts(3) [of c] by (auto simp: is_hex_digit_def)

lemma lower_digits:
  assumes "g \<noteq> []" "list_all is_hex_digit g"
  shows "0 \<le> hex_value g \<and> hex_value g < 16 ^ length g
    \<and> (\<exists>m. map toLowerCase g = replicate m CHR ''0'' @ digits 16 (hex_value g))"
  using assms
proof (induction g rule: rev_nonempty_induct)
  case (single c)
  then obtain d where d: "digit_value c = Some d" "d < 16" "digit_char d = toLowerCase c"
    using hex_digit_value [of c] by auto
  have v: "hex_value [c] = int d" using d by (simp add: hex_value_def)
  have "digits 16 (int d) = [toLowerCase c]" using d by (simp add: digits_small)
  then have "map toLowerCase [c] = replicate 0 CHR ''0'' @ digits 16 (hex_value [c])"
    using v by simp
  then show ?case using v d by (metis of_nat_0_le_iff of_nat_less_iff of_nat_numeral
        length_Cons list.size(3) power_one_right One_nat_def)
next
  case (snoc c g)
  then have ih: "0 \<le> hex_value g" "hex_value g < 16 ^ length g"
    and "\<exists>m. map toLowerCase g = replicate m CHR ''0'' @ digits 16 (hex_value g)"
    by simp_all
  then obtain m where m: "map toLowerCase g = replicate m CHR ''0'' @ digits 16 (hex_value g)"
    by blast
  obtain d where d: "digit_value c = Some d" "d < 16" "digit_char d = toLowerCase c"
    using snoc.prems hex_digit_value [of c] by auto
  let ?v = "hex_value g"
  have v: "hex_value (g @ [c]) = 16 * ?v + int d" using d by (simp add: hex_value_snoc)
  have b: "0 \<le> 16 * ?v + int d" "16 * ?v + int d < 16 ^ length (g @ [c])"
    using ih d by simp_all
  have "\<exists>m'. map toLowerCase (g @ [c]) = replicate m' CHR ''0'' @ digits 16 (16 * ?v + int d)"
  proof (cases "?v = 0")
    case True
    then have "digits 16 (16 * ?v + int d) = [toLowerCase c]" using d by (simp add: digits_small)
    moreover have "map toLowerCase g = replicate (Suc m) CHR ''0''"
      using m True by (simp add: digits_small digit_char_zero replicate_append_same)
    ultimately have "map toLowerCase (g @ [c]) = replicate (Suc m) CHR ''0'' @ digits 16 (16 * ?v + int d)"
      by simp
    then show ?thesis by blast
  next
    case False
    then have "16 \<le> 16 * ?v + int d" using ih by simp
    then have "digits 16 (16 * ?v + int d)
        = digits 16 ((16 * ?v + int d) div 16) @ [digit_char (nat ((16 * ?v + int d) mod 16))]"
      by (rule digits_step)
    moreover have "(16 * ?v + int d) div 16 = ?v" "(16 * ?v + int d) mod 16 = int d"
      using d by simp_all
    ultimately have "digits 16 (16 * ?v + int d) = digits 16 ?v @ [toLowerCase c]"
      using d by simp
    then have "map toLowerCase (g @ [c]) = replicate m CHR ''0'' @ digits 16 (16 * ?v + int d)"
      using m by simp
    then show ?thesis by blast
  qed
  then show ?case using v b by simp
qed

lemma aligned_lower:
  assumes "g \<noteq> []" "list_all is_hex_digit g" "int (length g) < 2 ^ 32"
  shows "getIntAligner 16 (hex_value g) (int (length g)) = map toLowerCase g"
proof -
  obtain m where m: "map toLowerCase g = replicate m CHR ''0'' @ digits 16 (hex_value g)"
    and nn: "0 \<le> hex_value g"
    using lower_digits [OF assms(1,2)] by blast
  have "length g = m + length (digits 16 (hex_value g))"
    using arg_cong [OF m, of length] by simp
  then have "nat (int (length g) - int (length (digits 16 (hex_value g)))) = m" by simp
  then show ?thesis
    using m nn by (simp add: getIntAligner_pad [OF assms(3)] Number_toString_nonneg)
qed


subsection \<open>Bit operations as arithmetic\<close>

lemma ToInt32_signed_take_bit: "ToInt32 n = signed_take_bit 31 n"
  by (simp add: ToInt32_def signed_take_bit_eq_take_bit_shift take_bit_eq_mod)

lemma take_bit_ToInt32: "k \<le> 32 \<Longrightarrow> take_bit k (ToInt32 n) = take_bit k n"
  by (simp add: ToInt32_signed_take_bit take_bit_signed_take_bit)

lemma bit_and_mask:
  assumes "k \<le> 31"
  shows "bit_and a (2 ^ k - 1) = a mod 2 ^ k"
proof -
  have "(2::int) ^ k \<le> 2 ^ 31" using assms by (intro power_increasing) auto
  then have "ToInt32 (2 ^ k - 1) = 2 ^ k - 1" by (intro ToInt32_id) auto
  then have "bit_and a (2 ^ k - 1) = take_bit k (ToInt32 a)"
    by (simp add: bit_and_def take_bit_eq_mask mask_eq_exp_minus_1)
  also have "\<dots> = take_bit k a" using assms by (intro take_bit_ToInt32) simp
  finally show ?thesis by (simp add: take_bit_eq_mod)
qed

lemma bit_and_masks:
  "bit_and a 0xF = a mod 16"
  "bit_and a 0x3F = a mod 64"
  "bit_and a 0xFF = a mod 256"
  "bit_and a 0xFFF = a mod 4096"
  "bit_and a 0x3FFF = a mod 16384"
  "bit_and a 0xFFFF = a mod 65536"
  "bit_and a 0xFFFFFFF = a mod 268435456"
  using bit_and_mask [of 4 a] bit_and_mask [of 6 a] bit_and_mask [of 8 a] bit_and_mask [of 12 a]
    bit_and_mask [of 14 a] bit_and_mask [of 16 a] bit_and_mask [of 28 a]
  by simp_all

lemma bit_or_commute: "bit_or a b = bit_or b a"
  by (simp add: bit_or_def or.commute)

lemma bit_or_disjoint:
  assumes "0 \<le> m" "0 \<le> r" "r < 2 ^ k" "m * 2 ^ k + r < 2 ^ 31"
  shows "bit_or (m * 2 ^ k) r = m * 2 ^ k + r"
proof -
  have nn: "0 \<le> m * 2 ^ k" using assms(1) by simp
  then have "m * 2 ^ k < 2 ^ 31" "r < 2 ^ 31" using assms(2,4) by linarith+
  then have t: "ToInt32 (m * 2 ^ k) = m * 2 ^ k" "ToInt32 r = r"
    using nn assms(2) by (simp_all only: ToInt32_id)
  have "push_bit k m AND take_bit k r = 0"
    by (rule bit_eqI) (auto simp: bit_simps)
  moreover have "take_bit k r = r" using assms by (simp add: take_bit_int_eq_self)
  ultimately have "push_bit k m AND r = 0" by simp
  then have "push_bit k m + r = push_bit k m OR r" by (rule disjunctive_add_eq_or)
  then show ?thesis using t by (simp add: bit_or_def push_bit_eq_mult)
qed

lemma shift_right_div:
  assumes "0 \<le> a" "a < 2 ^ 31" "0 \<le> k" "k < 32"
  shows "shift_right a k = a div 2 ^ nat k"
  using assms by (simp add: shift_right_def ToInt32_id drop_bit_eq_div)

lemma shift_right_unsigned_div:
  assumes "0 \<le> a" "a < 2 ^ 32" "0 \<le> k" "k < 32"
  shows "shift_right_unsigned a k = a div 2 ^ nat k"
  using assms by (simp add: shift_right_unsigned_def ToUint32_def drop_bit_eq_div)

lemma shift_left_mult:
  assumes "0 \<le> a" "a * 2 ^ nat k < 2 ^ 31" "0 \<le> k" "k < 32"
  shows "shift_left a k = a * 2 ^ nat k"
proof -
  have "a * 1 \<le> a * 2 ^ nat k" using assms(1) by (intro mult_left_mono) auto
  then have "a < 2 ^ 31" using assms(2) by simp
  then show ?thesis
    using assms by (simp add: shift_left_def ToInt32_id push_bit_eq_mult)
qed

lemma and_shifted_mask:
  "a AND push_bit j (mask k) = push_bit j (take_bit k (drop_bit j a))" for a :: int
  by (rule bit_eqI) (auto simp: bit_simps)

lemma variant_bits:
  assumes "0 \<le> r" "r < 64"
  shows "bit_and (128 + r) 0xC0 = 0x80"
proof -
  have m: "push_bit 6 (mask 2) = (192::int)" by (simp add: push_bit_eq_mult mask_eq_exp_minus_1)
  have "(64 * 2 + r) div 64 = 2 + r div 64" by (simp only: div_mult_self4)
  then have d: "(128 + r) div 64 = 2" using assms by simp
  have "ToInt32 (128 + r) = 128 + r" "ToInt32 192 = 192"
    using assms by (simp_all add: ToInt32_id)
  then have "bit_and (128 + r) 0xC0 = (128 + r) AND push_bit 6 (mask 2)"
    by (simp only: bit_and_def m)
  also have "\<dots> = push_bit 6 (take_bit 2 (drop_bit 6 (128 + r)))"
    by (rule and_shifted_mask)
  also have "\<dots> = 0x80"
    using d by (simp add: drop_bit_eq_div take_bit_eq_mod push_bit_eq_mult)
  finally show ?thesis .
qed


subsection \<open>The initializer\<close>

lemma upt_6: "[0..<6] = [0, 1, 2, 3, 4, 5]"
  by (simp add: upt_rec)

lemma init_fields:
  "intFields (init [Num a, Num b, Num c, Num d, Num e, Num f]) = [a, b, c, d, e, f]"
  "hexFields (init [Num a, Num b, Num c, Num d, Num e, Num f])
     = [getIntAligner 16 a 8, getIntAligner 16 b 4, getIntAligner 16 c 4,
        getIntAligner 16 d 2, getIntAligner 16 e 2, getIntAligner 16 f 12]"
  "version (init [Num a, Num b, Num c, Num d, Num e, Num f]) = bit_and (shift_right c 12) 0xF"
  "hexString (init [Num a, Num b, Num c, Num d, Num e, Num f])
     = getIntAligner 16 a 8 @ ''-'' @ getIntAligner 16 b 4 @ ''-'' @ getIntAligner 16 c 4
       @ ''-'' @ getIntAligner 16 d 2 @ getIntAligner 16 e 2 @ ''-'' @ getIntAligner 16 f 12"
  by (simp_all add: init_def sizes_def upt_6 argument_or_zero_def parseInt_number_def Let_def)

lemma width_invariant_init:
  "width_invariant (init [Num a, Num b, Num c, Num d, Num e, Num f])
    \<longleftrightarrow> (0 \<le> a \<and> a < 2 ^ 32) \<and> (0 \<le> b \<and> b < 2 ^ 16) \<and> (0 \<le> c \<and> c < 2 ^ 16)
      \<and> (0 \<le> d \<and> d < 2 ^ 8) \<and> (0 \<le> e \<and> e < 2 ^ 8) \<and> (0 \<le> f \<and> f < 2 ^ 48)"
  by (simp add: width_invariant_def init_fields(1) sizes_def upt_6)

lemma equals_refl: "equals u (Some u)"
  by (simp add: equals_def list_all_iff)

subsection \<open>The pattern\<close>

lemma match_hex_Some:
  "match_hex n s = Some (r, rest) \<longleftrightarrow> s = r @ rest \<and> length r = n \<and> list_all is_hex_digit r"
  by (auto simp: match_hex_def min_def)

lemma match_char_Some: "match_char c s = Some rest \<longleftrightarrow> s = c # rest"
  by (cases s) auto

lemma exec_pattern_Some:
  "exec_pattern s = Some (r1, r2, r3, r4, r5, r6) \<longleftrightarrow>
    s = r1 @ ''-'' @ r2 @ ''-'' @ r3 @ ''-'' @ r4 @ r5 @ ''-'' @ r6
    \<and> (length r1 = 8 \<and> list_all is_hex_digit r1) \<and> (length r2 = 4 \<and> list_all is_hex_digit r2)
    \<and> (length r3 = 4 \<and> list_all is_hex_digit r3) \<and> (length r4 = 2 \<and> list_all is_hex_digit r4)
    \<and> (length r5 = 2 \<and> list_all is_hex_digit r5) \<and> (length r6 = 12 \<and> list_all is_hex_digit r6)"
  unfolding exec_pattern_def
  by (auto simp: Option.bind_eq_Some_conv match_hex_Some match_char_Some)


subsection \<open>The parser\<close>

lemma parse_groups:
  assumes "s = g1 @ ''-'' @ g2 @ ''-'' @ g3 @ ''-'' @ g4 @ g5 @ ''-'' @ g6"
    and "length g1 = 8 \<and> list_all is_hex_digit g1" "length g2 = 4 \<and> list_all is_hex_digit g2"
    and "length g3 = 4 \<and> list_all is_hex_digit g3" "length g4 = 2 \<and> list_all is_hex_digit g4"
    and "length g5 = 2 \<and> list_all is_hex_digit g5" "length g6 = 12 \<and> list_all is_hex_digit g6"
  shows "parse s = Some (init [Num (hex_value g1), Num (hex_value g2), Num (hex_value g3),
                               Num (hex_value g4), Num (hex_value g5), Num (hex_value g6)])"
proof -
  have e: "exec_pattern s = Some (g1, g2, g3, g4, g5, g6)"
    using assms by (simp only: exec_pattern_Some simp_thms)
  have ne: "g1 \<noteq> []" "g2 \<noteq> []" "g3 \<noteq> []" "g4 \<noteq> []" "g5 \<noteq> []" "g6 \<noteq> []"
    using assms(2-7) by auto
  show ?thesis
    using assms(2-7) ne by (simp add: parse_def e parseInt16_hex)
qed

lemma parse_Some:
  assumes "parse s = Some u"
  obtains g1 g2 g3 g4 g5 g6 where
    "s = g1 @ ''-'' @ g2 @ ''-'' @ g3 @ ''-'' @ g4 @ g5 @ ''-'' @ g6"
    "length g1 = 8 \<and> list_all is_hex_digit g1" "length g2 = 4 \<and> list_all is_hex_digit g2"
    "length g3 = 4 \<and> list_all is_hex_digit g3" "length g4 = 2 \<and> list_all is_hex_digit g4"
    "length g5 = 2 \<and> list_all is_hex_digit g5" "length g6 = 12 \<and> list_all is_hex_digit g6"
    "u = init [Num (hex_value g1), Num (hex_value g2), Num (hex_value g3),
               Num (hex_value g4), Num (hex_value g5), Num (hex_value g6)]"
proof -
  from assms obtain p where p: "exec_pattern s = Some p"
    by (cases "exec_pattern s") (simp_all add: parse_def)
  obtain g1 g2 g3 g4 g5 g6 where "p = (g1, g2, g3, g4, g5, g6)"
    by (cases p rule: prod_cases6)
  with p have e: "exec_pattern s = Some (g1, g2, g3, g4, g5, g6)" by simp
  then have d: "s = g1 @ ''-'' @ g2 @ ''-'' @ g3 @ ''-'' @ g4 @ g5 @ ''-'' @ g6"
    "length g1 = 8 \<and> list_all is_hex_digit g1" "length g2 = 4 \<and> list_all is_hex_digit g2"
    "length g3 = 4 \<and> list_all is_hex_digit g3" "length g4 = 2 \<and> list_all is_hex_digit g4"
    "length g5 = 2 \<and> list_all is_hex_digit g5" "length g6 = 12 \<and> list_all is_hex_digit g6"
    by (simp_all only: exec_pattern_Some)
  have "parse s = Some (init [Num (hex_value g1), Num (hex_value g2), Num (hex_value g3),
                               Num (hex_value g4), Num (hex_value g5), Num (hex_value g6)])"
    by (rule parse_groups [OF d])
  then have u: "u = init [Num (hex_value g1), Num (hex_value g2), Num (hex_value g3),
               Num (hex_value g4), Num (hex_value g5), Num (hex_value g6)]"
    using assms by (simp only: option.inject)
  show ?thesis by (rule that [OF d u])
qed

lemma hex_group_iff: "hex_group n g \<longleftrightarrow> length g = n \<and> list_all is_hex_digit g"
  unfolding hex_group_def list_all_iff char_facts(1) subset_eq by (rule refl)

lemma parse_iff_canonical: "parse s \<noteq> None \<longleftrightarrow> canonical_pattern s"
proof
  assume "parse s \<noteq> None"
  then obtain u where "parse s = Some u" by blast
  then show "canonical_pattern s"
    unfolding canonical_pattern_def hex_group_iff by (elim parse_Some) blast
next
  assume "canonical_pattern s"
  then obtain g1 g2 g3 g4 g5 g6 where
    "s = g1 @ ''-'' @ g2 @ ''-'' @ g3 @ ''-'' @ g4 @ g5 @ ''-'' @ g6"
    "length g1 = 8 \<and> list_all is_hex_digit g1" "length g2 = 4 \<and> list_all is_hex_digit g2"
    "length g3 = 4 \<and> list_all is_hex_digit g3" "length g4 = 2 \<and> list_all is_hex_digit g4"
    "length g5 = 2 \<and> list_all is_hex_digit g5" "length g6 = 12 \<and> list_all is_hex_digit g6"
    unfolding canonical_pattern_def hex_group_iff by blast
  then show "parse s \<noteq> None" using parse_groups by simp
qed


lemma toLowerCase_hyphen: "toLowerCase CHR ''-'' = CHR ''-''"
  by (simp add: toLowerCase_def)

lemma parse_toString:
  assumes "parse s = Some u"
  shows "UUID_toString u = map toLowerCase s"
  using assms
proof (rule parse_Some)
  fix g1 g2 g3 g4 g5 g6
  assume s: "s = g1 @ ''-'' @ g2 @ ''-'' @ g3 @ ''-'' @ g4 @ g5 @ ''-'' @ g6"
    and g: "length g1 = 8 \<and> list_all is_hex_digit g1" "length g2 = 4 \<and> list_all is_hex_digit g2"
    "length g3 = 4 \<and> list_all is_hex_digit g3" "length g4 = 2 \<and> list_all is_hex_digit g4"
    "length g5 = 2 \<and> list_all is_hex_digit g5" "length g6 = 12 \<and> list_all is_hex_digit g6"
    and u: "u = init [Num (hex_value g1), Num (hex_value g2), Num (hex_value g3),
               Num (hex_value g4), Num (hex_value g5), Num (hex_value g6)]"
  have a: "getIntAligner 16 (hex_value x) (int (length x)) = map toLowerCase x"
    if "0 < length x" "length x \<le> 12" "list_all is_hex_digit x" for x
    using that by (intro aligned_lower) auto
  have "getIntAligner 16 (hex_value g1) 8 = map toLowerCase g1"
    "getIntAligner 16 (hex_value g2) 4 = map toLowerCase g2"
    "getIntAligner 16 (hex_value g3) 4 = map toLowerCase g3"
    "getIntAligner 16 (hex_value g4) 2 = map toLowerCase g4"
    "getIntAligner 16 (hex_value g5) 2 = map toLowerCase g5"
    "getIntAligner 16 (hex_value g6) 12 = map toLowerCase g6"
    using a [of g1] a [of g2] a [of g3] a [of g4] a [of g5] a [of g6] g by simp_all
  then show ?thesis
    by (simp add: UUID_toString_def u s init_fields(4) toLowerCase_hyphen)
qed

lemma parse_width:
  assumes "parse s = Some u"
  shows "width_invariant u"
  using assms
proof (rule parse_Some)
  fix g1 g2 g3 g4 g5 g6
  assume g: "length g1 = 8 \<and> list_all is_hex_digit g1" "length g2 = 4 \<and> list_all is_hex_digit g2"
    "length g3 = 4 \<and> list_all is_hex_digit g3" "length g4 = 2 \<and> list_all is_hex_digit g4"
    "length g5 = 2 \<and> list_all is_hex_digit g5" "length g6 = 12 \<and> list_all is_hex_digit g6"
    and u: "u = init [Num (hex_value g1), Num (hex_value g2), Num (hex_value g3),
               Num (hex_value g4), Num (hex_value g5), Num (hex_value g6)]"
  have b: "0 \<le> hex_value x \<and> hex_value x < 16 ^ length x"
    if "0 < length x" "list_all is_hex_digit x" for x
    using that lower_digits [of x] by auto
  have "0 \<le> hex_value g1 \<and> hex_value g1 < 16 ^ 8" "0 \<le> hex_value g2 \<and> hex_value g2 < 16 ^ 4"
    "0 \<le> hex_value g3 \<and> hex_value g3 < 16 ^ 4" "0 \<le> hex_value g4 \<and> hex_value g4 < 16 ^ 2"
    "0 \<le> hex_value g5 \<and> hex_value g5 < 16 ^ 2" "0 \<le> hex_value g6 \<and> hex_value g6 < 16 ^ 12"
    using b [of g1] b [of g2] b [of g3] b [of g4] b [of g5] b [of g6] g by simp_all
  then show ?thesis
    unfolding u width_invariant_init by simp
qed

lemma separator_split:
  "x \<notin> set a \<Longrightarrow> x \<notin> set a' \<Longrightarrow> a @ x # b = a' @ x # b' \<Longrightarrow> a = a' \<and> b = b'"
proof (induction a arbitrary: a')
  case Nil
  then show ?case by (cases a') auto
next
  case (Cons y ys)
  then show ?case by (cases a') auto
qed

lemma hyphen_split:
  assumes "list_all is_hex_digit a" "list_all is_hex_digit a'" "a @ ''-'' @ b = a' @ ''-'' @ b'"
  shows "a = a' \<and> b = b'"
proof -
  have "CHR ''-'' \<notin> set a" "CHR ''-'' \<notin> set a'"
    using assms(1,2) char_facts(2) by (auto simp: list_all_iff)
  then show ?thesis using assms(3) by (intro separator_split [of "CHR ''-''"]) simp_all
qed

lemma wrong_group_length:
  assumes s: "s = h1 @ ''-'' @ h2 @ ''-'' @ h3 @ ''-'' @ h4 @ ''-'' @ h5"
    and h: "list_all is_hex_digit h1" "list_all is_hex_digit h2" "list_all is_hex_digit h3"
      "list_all is_hex_digit h4" "list_all is_hex_digit h5"
    and l: "length h1 \<noteq> 8 \<or> length h2 \<noteq> 4 \<or> length h3 \<noteq> 4 \<or> length h4 \<noteq> 4 \<or> length h5 \<noteq> 12"
  shows "parse s = None"
proof (rule ccontr)
  assume "parse s \<noteq> None"
  then obtain u where "parse s = Some u" by blast
  then show False
  proof (rule parse_Some)
    fix g1 g2 g3 g4 g5 g6
    assume d: "s = g1 @ ''-'' @ g2 @ ''-'' @ g3 @ ''-'' @ g4 @ g5 @ ''-'' @ g6"
      and g: "length g1 = 8 \<and> list_all is_hex_digit g1" "length g2 = 4 \<and> list_all is_hex_digit g2"
      "length g3 = 4 \<and> list_all is_hex_digit g3" "length g4 = 2 \<and> list_all is_hex_digit g4"
      "length g5 = 2 \<and> list_all is_hex_digit g5" "length g6 = 12 \<and> list_all is_hex_digit g6"
    have 1: "h1 = g1 \<and> h2 @ ''-'' @ h3 @ ''-'' @ h4 @ ''-'' @ h5 = g2 @ ''-'' @ g3 @ ''-'' @ g4 @ g5 @ ''-'' @ g6"
      using s d h(1) g(1) by (intro hyphen_split) simp_all
    then have 2: "h2 = g2 \<and> h3 @ ''-'' @ h4 @ ''-'' @ h5 = g3 @ ''-'' @ g4 @ g5 @ ''-'' @ g6"
      using h(2) g(2) by (intro hyphen_split) simp_all
    then have 3: "h3 = g3 \<and> h4 @ ''-'' @ h5 = g4 @ g5 @ ''-'' @ g6"
      using h(3) g(3) by (intro hyphen_split) simp_all
    have "list_all is_hex_digit (g4 @ g5)" using g(4,5) by simp
    moreover have "h4 @ ''-'' @ h5 = (g4 @ g5) @ ''-'' @ g6" using 3 by simp
    ultimately have 4: "h4 = g4 @ g5 \<and> h5 = g6"
      using h(4) by (intro hyphen_split) simp_all
    show False using 1 2 3 4 g l by simp
  qed
qed


text \<open>
  Claim C3. \<open>parse s\<close> returns a UUID exactly when \<open>s\<close> matches the canonical pattern, and
  \<open>None\<close> otherwise; on a match the six fields are the hexadecimal values of the groups, the
  fourth hyphen-group giving two fields; a string of five hyphen-separated groups of hex
  digits with a wrong group length is rejected; the specification's examples evaluate as it
  says.
\<close>

theorem parse_canonical:
  "(parse s \<noteq> None \<longleftrightarrow> canonical_pattern s)
   \<and> (\<forall>g1 g2 g3 g4 g5 g6.
        s = g1 @ ''-'' @ g2 @ ''-'' @ g3 @ ''-'' @ g4 @ g5 @ ''-'' @ g6
        \<and> hex_group 8 g1 \<and> hex_group 4 g2 \<and> hex_group 4 g3
        \<and> hex_group 2 g4 \<and> hex_group 2 g5 \<and> hex_group 12 g6
        \<longrightarrow> (\<exists>u. parse s = Some u
              \<and> timeLow u = hex_value g1 \<and> timeMid u = hex_value g2
              \<and> timeHiAndVersion u = hex_value g3 \<and> clockSeqHiAndReserved u = hex_value g4
              \<and> clockSeqLow u = hex_value g5 \<and> node u = hex_value g6))
   \<and> (\<forall>h1 h2 h3 h4 h5.
        s = h1 @ ''-'' @ h2 @ ''-'' @ h3 @ ''-'' @ h4 @ ''-'' @ h5
        \<and> hex_group (length h1) h1 \<and> hex_group (length h2) h2 \<and> hex_group (length h3) h3
        \<and> hex_group (length h4) h4 \<and> hex_group (length h5) h5
        \<and> (length h1 \<noteq> 8 \<or> length h2 \<noteq> 4 \<or> length h3 \<noteq> 4 \<or> length h4 \<noteq> 4 \<or> length h5 \<noteq> 12)
        \<longrightarrow> parse s = None)
   \<and> map_option (\<lambda>u. (timeLow u, timeMid u, timeHiAndVersion u, clockSeqHiAndReserved u,
                        clockSeqLow u, node u, UUID_toString u))
         (parse ''12345678-1234-5678-9abc-123456789012'')
       = Some (0x12345678, 0x1234, 0x5678, 0x9a, 0xbc, 0x123456789012,
               ''12345678-1234-5678-9abc-123456789012'')
   \<and> parse ''not-a-uuid'' = None \<and> parse '''' = None
   \<and> parse ''1234567-1234-5678-9abc-123456789012'' = None"
proof (intro conjI allI impI)
  show "parse s \<noteq> None \<longleftrightarrow> canonical_pattern s" by (rule parse_iff_canonical)
next
  fix g1 g2 g3 g4 g5 g6
  assume a: "s = g1 @ ''-'' @ g2 @ ''-'' @ g3 @ ''-'' @ g4 @ g5 @ ''-'' @ g6
        \<and> hex_group 8 g1 \<and> hex_group 4 g2 \<and> hex_group 4 g3
        \<and> hex_group 2 g4 \<and> hex_group 2 g5 \<and> hex_group 12 g6"
  then have d: "s = g1 @ ''-'' @ g2 @ ''-'' @ g3 @ ''-'' @ g4 @ g5 @ ''-'' @ g6"
    "length g1 = 8 \<and> list_all is_hex_digit g1" "length g2 = 4 \<and> list_all is_hex_digit g2"
    "length g3 = 4 \<and> list_all is_hex_digit g3" "length g4 = 2 \<and> list_all is_hex_digit g4"
    "length g5 = 2 \<and> list_all is_hex_digit g5" "length g6 = 12 \<and> list_all is_hex_digit g6"
    by (simp_all only: hex_group_iff)
  let ?u = "init [Num (hex_value g1), Num (hex_value g2), Num (hex_value g3),
                  Num (hex_value g4), Num (hex_value g5), Num (hex_value g6)]"
  have "parse s = Some ?u" by (rule parse_groups [OF d])
  moreover have "timeLow ?u = hex_value g1 \<and> timeMid ?u = hex_value g2
      \<and> timeHiAndVersion ?u = hex_value g3 \<and> clockSeqHiAndReserved ?u = hex_value g4
      \<and> clockSeqLow ?u = hex_value g5 \<and> node ?u = hex_value g6"
    by (simp add: timeLow_def timeMid_def timeHiAndVersion_def clockSeqHiAndReserved_def
        clockSeqLow_def node_def init_fields(1))
  ultimately show "\<exists>u. parse s = Some u
      \<and> timeLow u = hex_value g1 \<and> timeMid u = hex_value g2
      \<and> timeHiAndVersion u = hex_value g3 \<and> clockSeqHiAndReserved u = hex_value g4
      \<and> clockSeqLow u = hex_value g5 \<and> node u = hex_value g6"
    by blast
next
  fix h1 h2 h3 h4 h5
  assume a: "s = h1 @ ''-'' @ h2 @ ''-'' @ h3 @ ''-'' @ h4 @ ''-'' @ h5
        \<and> hex_group (length h1) h1 \<and> hex_group (length h2) h2 \<and> hex_group (length h3) h3
        \<and> hex_group (length h4) h4 \<and> hex_group (length h5) h5
        \<and> (length h1 \<noteq> 8 \<or> length h2 \<noteq> 4 \<or> length h3 \<noteq> 4 \<or> length h4 \<noteq> 4 \<or> length h5 \<noteq> 12)"
  then have "s = h1 @ ''-'' @ h2 @ ''-'' @ h3 @ ''-'' @ h4 @ ''-'' @ h5"
    "list_all is_hex_digit h1" "list_all is_hex_digit h2" "list_all is_hex_digit h3"
    "list_all is_hex_digit h4" "list_all is_hex_digit h5"
    "length h1 \<noteq> 8 \<or> length h2 \<noteq> 4 \<or> length h3 \<noteq> 4 \<or> length h4 \<noteq> 4 \<or> length h5 \<noteq> 12"
    by (simp_all only: hex_group_iff simp_thms)
  then show "parse s = None" by (rule wrong_group_length)
next
  let ?s = "''12345678-1234-5678-9abc-123456789012''"
  have "?s = ''12345678'' @ ''-'' @ ''1234'' @ ''-'' @ ''5678'' @ ''-'' @ ''9a'' @ ''bc'' @ ''-'' @ ''123456789012''"
    "length ''12345678'' = 8 \<and> list_all is_hex_digit ''12345678''"
    "length ''1234'' = 4 \<and> list_all is_hex_digit ''1234''"
    "length ''5678'' = 4 \<and> list_all is_hex_digit ''5678''"
    "length ''9a'' = 2 \<and> list_all is_hex_digit ''9a''"
    "length ''bc'' = 2 \<and> list_all is_hex_digit ''bc''"
    "length ''123456789012'' = 12 \<and> list_all is_hex_digit ''123456789012''"
    by code_simp+
  then have "parse ?s = Some (init [Num (hex_value ''12345678''), Num (hex_value ''1234''),
      Num (hex_value ''5678''), Num (hex_value ''9a''), Num (hex_value ''bc''),
      Num (hex_value ''123456789012'')])"
    by (rule parse_groups)
  moreover have "hex_value ''12345678'' = 0x12345678" "hex_value ''1234'' = 0x1234"
    "hex_value ''5678'' = 0x5678" "hex_value ''9a'' = 0x9a" "hex_value ''bc'' = 0xbc"
    "hex_value ''123456789012'' = 0x123456789012"
    by code_simp+
  moreover have "hexString (init [Num 0x12345678, Num 0x1234, Num 0x5678, Num 0x9a, Num 0xbc,
      Num 0x123456789012]) = ?s"
    by code_simp
  ultimately show "map_option (\<lambda>u. (timeLow u, timeMid u, timeHiAndVersion u, clockSeqHiAndReserved u,
                        clockSeqLow u, node u, UUID_toString u)) (parse ?s)
       = Some (0x12345678, 0x1234, 0x5678, 0x9a, 0xbc, 0x123456789012, ?s)"
    by (simp add: timeLow_def timeMid_def timeHiAndVersion_def clockSeqHiAndReserved_def
        clockSeqLow_def node_def init_fields(1) UUID_toString_def)
next
  show "parse ''not-a-uuid'' = None" by code_simp
next
  show "parse '''' = None" by code_simp
next
  show "parse ''1234567-1234-5678-9abc-123456789012'' = None" by code_simp
qed

theorem parse_canonical_witness:
  "canonical_pattern ''12345678-1234-5678-9abc-123456789012''
   \<and> (\<exists>u. parse ''12345678-1234-5678-9abc-123456789012'' = Some u
        \<and> timeLow u = hex_value ''12345678'' \<and> clockSeqHiAndReserved u = hex_value ''9a''
        \<and> clockSeqLow u = hex_value ''bc'')
   \<and> parse ''1234567-1234-5678-9abc-123456789012'' = None"
proof -
  let ?s = "''12345678-1234-5678-9abc-123456789012''"
  note t = parse_canonical [of ?s]
  have "map_option timeLow (parse ?s) = Some 0x12345678"
    using t [THEN conjunct2, THEN conjunct2, THEN conjunct2, THEN conjunct1]
    by (simp add: map_option_case split: option.splits)
  then have p: "parse ?s \<noteq> None" by auto
  have g: "?s = ''12345678'' @ ''-'' @ ''1234'' @ ''-'' @ ''5678'' @ ''-'' @ ''9a'' @ ''bc'' @ ''-'' @ ''123456789012''
        \<and> hex_group 8 ''12345678'' \<and> hex_group 4 ''1234'' \<and> hex_group 4 ''5678''
        \<and> hex_group 2 ''9a'' \<and> hex_group 2 ''bc'' \<and> hex_group 12 ''123456789012''"
    by code_simp
  have 1: "canonical_pattern ?s" using t p by (simp only: simp_thms)
  have "\<exists>u. parse ?s = Some u
        \<and> timeLow u = hex_value ''12345678'' \<and> timeMid u = hex_value ''1234''
        \<and> timeHiAndVersion u = hex_value ''5678'' \<and> clockSeqHiAndReserved u = hex_value ''9a''
        \<and> clockSeqLow u = hex_value ''bc'' \<and> node u = hex_value ''123456789012''"
    using t [THEN conjunct2, THEN conjunct1, rule_format, OF g] .
  then have 2: "\<exists>u. parse ?s = Some u
        \<and> timeLow u = hex_value ''12345678'' \<and> clockSeqHiAndReserved u = hex_value ''9a''
        \<and> clockSeqLow u = hex_value ''bc''" by blast
  have w: "''1234567-1234-5678-9abc-123456789012'' = ''1234567'' @ ''-'' @ ''1234'' @ ''-'' @ ''5678'' @ ''-'' @ ''9abc'' @ ''-'' @ ''123456789012''
        \<and> hex_group (length ''1234567'') ''1234567'' \<and> hex_group (length ''1234'') ''1234''
        \<and> hex_group (length ''5678'') ''5678'' \<and> hex_group (length ''9abc'') ''9abc''
        \<and> hex_group (length ''123456789012'') ''123456789012''
        \<and> (length ''1234567'' \<noteq> 8 \<or> length ''1234'' \<noteq> 4 \<or> length ''5678'' \<noteq> 4
            \<or> length ''9abc'' \<noteq> 4 \<or> length ''123456789012'' \<noteq> 12)"
    by code_simp
  have 3: "parse ''1234567-1234-5678-9abc-123456789012'' = None"
    using parse_canonical [of "''1234567-1234-5678-9abc-123456789012''",
        THEN conjunct2, THEN conjunct2, THEN conjunct1, rule_format, OF w] .
  show ?thesis using 1 2 3 by (intro conjI)
qed

text \<open>
  Claim C10. For every string \<open>s\<close> that matches the canonical pattern, in either case of the
  letters, \<open>parse s\<close> is a UUID whose \<open>toString\<close> is \<open>s\<close> in lower case.
\<close>

theorem parse_normalizes_case:
  assumes "canonical_pattern s"
  shows "\<exists>u. parse s = Some u \<and> UUID_toString u = map toLowerCase s"
proof -
  from assms have "parse s \<noteq> None" by (simp only: parse_iff_canonical)
  then obtain u where "parse s = Some u" by blast
  then show ?thesis using parse_toString by blast
qed

theorem parse_normalizes_case_witness:
  "canonical_pattern ''12345678-1234-5678-9ABC-12345678EF0d''
   \<and> (\<exists>u. parse ''12345678-1234-5678-9ABC-12345678EF0d'' = Some u
        \<and> UUID_toString u = ''12345678-1234-5678-9abc-12345678ef0d'')"
proof -
  let ?s = "''12345678-1234-5678-9ABC-12345678EF0d''"
  have "?s = ''12345678'' @ ''-'' @ ''1234'' @ ''-'' @ ''5678'' @ ''-'' @ ''9A'' @ ''BC'' @ ''-'' @ ''12345678EF0d''
      \<and> hex_group 8 ''12345678'' \<and> hex_group 4 ''1234'' \<and> hex_group 4 ''5678''
      \<and> hex_group 2 ''9A'' \<and> hex_group 2 ''BC'' \<and> hex_group 12 ''12345678EF0d''"
    by code_simp
  then have c: "canonical_pattern ?s" unfolding canonical_pattern_def by blast
  have l: "map toLowerCase ?s = ''12345678-1234-5678-9abc-12345678ef0d''" by code_simp
  show ?thesis using c parse_normalizes_case [OF c] unfolding l by (intro conjI)
qed


subsection \<open>Generated field values\<close>

lemma init_third_fourth:
  "timeHiAndVersion (init [a, b, Num c, d, e, f]) = c"
  "version (init [a, b, Num c, d, e, f]) = bit_and (shift_right c 12) 0xF"
  "clockSeqHiAndReserved (init [a, b, c', Num d', e, f]) = d'"
  "clockSeqLow (init [a, b, c', d, Num e', f]) = e'"
  by (simp_all add: init_def sizes_def upt_6 argument_or_zero_def parseInt_number_def Let_def
      timeHiAndVersion_def clockSeqHiAndReserved_def clockSeqLow_def)

lemma version_tag:
  assumes "0 \<le> r" "r < 4096" "0 < v" "v < 8"
  shows "bit_and (shift_right (v * 4096 + r) 12) 0xF = v"
proof -
  have "(v * 4096 + r) div 4096 = v" using assms by simp
  moreover have "v * 4096 + r < 2 ^ 31" "0 \<le> v * 4096 + r" using assms by simp_all
  ultimately have "shift_right (v * 4096 + r) 12 = v"
    by (simp add: shift_right_div)
  then show ?thesis using assms by (simp add: bit_and_masks)
qed

lemma bit_or_4000: "0 \<le> r \<Longrightarrow> r < 4096 \<Longrightarrow> bit_or 0x4000 r = 4 * 4096 + r"
  using bit_or_disjoint [of 4 r 12] by simp

lemma bit_or_1000: "0 \<le> r \<Longrightarrow> r < 4096 \<Longrightarrow> bit_or r 0x1000 = 1 * 4096 + r"
  using bit_or_disjoint [of 1 r 12] by (subst bit_or_commute) simp

lemma bit_or_80: "0 \<le> r \<Longrightarrow> r < 64 \<Longrightarrow> bit_or 0x80 r = 128 + r"
  using bit_or_disjoint [of 2 r 6] by simp

lemma bit_or_80': "0 \<le> r \<Longrightarrow> r < 64 \<Longrightarrow> bit_or r 0x80 = 128 + r"
  by (subst bit_or_commute) (rule bit_or_80)

lemma genV4_eq:
  "fst (genV4 rs) =
    (let rs1 = snd (getRandomInt 32 rs); rs2 = snd (getRandomInt 16 rs1);
         rs3 = snd (getRandomInt 12 rs2); rs4 = snd (getRandomInt 6 rs3);
         rs5 = snd (getRandomInt 8 rs4)
     in init [fst (getRandomInt 32 rs), fst (getRandomInt 16 rs1),
              Num (bit_or 0x4000 (ToInt32_number (fst (getRandomInt 12 rs2)))),
              Num (bit_or 0x80 (ToInt32_number (fst (getRandomInt 6 rs3)))),
              fst (getRandomInt 8 rs4), fst (getRandomInt 48 rs5)])"
  by (simp add: genV4_def split_def Let_def)

lemma genV4_fields:
  assumes "valid_source rs"
  obtains a1 a2 r3 r4 a5 a6 where
    "fst (genV4 rs) = init [Num a1, Num a2, Num (4 * 4096 + r3), Num (128 + r4), Num a5, Num a6]"
    "0 \<le> a1 \<and> a1 < 2 ^ 32" "0 \<le> a2 \<and> a2 < 2 ^ 16" "0 \<le> r3 \<and> r3 < 4096"
    "0 \<le> r4 \<and> r4 < 64" "0 \<le> a5 \<and> a5 < 2 ^ 8" "0 \<le> a6 \<and> a6 < 2 ^ 48"
proof -
  define rs1 where "rs1 = snd (getRandomInt 32 rs)"
  define rs2 where "rs2 = snd (getRandomInt 16 rs1)"
  define rs3 where "rs3 = snd (getRandomInt 12 rs2)"
  define rs4 where "rs4 = snd (getRandomInt 6 rs3)"
  define rs5 where "rs5 = snd (getRandomInt 8 rs4)"
  have v: "valid_source rs1" "valid_source rs2" "valid_source rs3" "valid_source rs4"
    "valid_source rs5"
    using assms by (simp_all add: rs1_def rs2_def rs3_def rs4_def rs5_def valid_source_snd)
  obtain a1 where a1: "fst (getRandomInt 32 rs) = Num a1" "0 \<le> a1 \<and> a1 < 2 ^ 32"
    using getRandomInt_bounds [OF assms, of 32] by auto
  obtain a2 where a2: "fst (getRandomInt 16 rs1) = Num a2" "0 \<le> a2 \<and> a2 < 2 ^ 16"
    using getRandomInt_bounds [OF v(1), of 16] by auto
  obtain r3 where r3: "fst (getRandomInt 12 rs2) = Num r3" "0 \<le> r3 \<and> r3 < 4096"
    using getRandomInt_bounds [OF v(2), of 12] by auto
  obtain r4 where r4: "fst (getRandomInt 6 rs3) = Num r4" "0 \<le> r4 \<and> r4 < 64"
    using getRandomInt_bounds [OF v(3), of 6] by auto
  obtain a5 where a5: "fst (getRandomInt 8 rs4) = Num a5" "0 \<le> a5 \<and> a5 < 2 ^ 8"
    using getRandomInt_bounds [OF v(4), of 8] by auto
  obtain a6 where a6: "fst (getRandomInt 48 rs5) = Num a6" "0 \<le> a6 \<and> a6 < 2 ^ 48"
    using getRandomInt_bounds [OF v(5), of 48] by auto
  have "ToInt32_number (Num r3) = r3" "ToInt32_number (Num r4) = r4"
    using r3(2) r4(2) by (simp_all add: ToInt32_number_def ToInt32_id)
  then have "fst (genV4 rs)
      = init [Num a1, Num a2, Num (4 * 4096 + r3), Num (128 + r4), Num a5, Num a6]"
    using r3(2) r4(2)
    by (simp add: genV4_eq Let_def a1(1) a2(1) r3(1) r4(1) a5(1) a6(1) bit_or_4000 bit_or_80
        flip: rs1_def rs2_def rs3_def rs4_def rs5_def)
  then show ?thesis using a1(2) a2(2) r3(2) r4(2) a5(2) a6(2) by (rule that)
qed

subsection \<open>Round trip through the canonical string\<close>

lemma init_roundtrip:
  assumes "0 \<le> a \<and> a < 2 ^ 32" "0 \<le> b \<and> b < 2 ^ 16" "0 \<le> c \<and> c < 2 ^ 16"
    "0 \<le> d \<and> d < 2 ^ 8" "0 \<le> e \<and> e < 2 ^ 8" "0 \<le> f \<and> f < 2 ^ 48"
  shows "parse (UUID_toString (init [Num a, Num b, Num c, Num d, Num e, Num f]))
    = Some (init [Num a, Num b, Num c, Num d, Num e, Num f])"
proof -
  have h: "length (getIntAligner 16 n (int k)) = k \<and> list_all is_hex_digit (getIntAligner 16 n (int k))"
    "hex_value (getIntAligner 16 n (int k)) = n"
    if "0 \<le> n \<and> n < 16 ^ k" "0 < k" "k \<le> 12" for n k
    using that hex_aligned [of n k] by simp_all
  have p: "(2::int) ^ 32 = 16 ^ 8" "(2::int) ^ 16 = 16 ^ 4" "(2::int) ^ 8 = 16 ^ 2" "(2::int) ^ 48 = 16 ^ 12"
    by simp_all
  note g = h [of a 8] h [of b 4] h [of c 4] h [of d 2] h [of e 2] h [of f 12]
  have l: "length (getIntAligner 16 a 8) = 8 \<and> list_all is_hex_digit (getIntAligner 16 a 8)"
    "length (getIntAligner 16 b 4) = 4 \<and> list_all is_hex_digit (getIntAligner 16 b 4)"
    "length (getIntAligner 16 c 4) = 4 \<and> list_all is_hex_digit (getIntAligner 16 c 4)"
    "length (getIntAligner 16 d 2) = 2 \<and> list_all is_hex_digit (getIntAligner 16 d 2)"
    "length (getIntAligner 16 e 2) = 2 \<and> list_all is_hex_digit (getIntAligner 16 e 2)"
    "length (getIntAligner 16 f 12) = 12 \<and> list_all is_hex_digit (getIntAligner 16 f 12)"
    using g(1,3,5,7,9,11) assms unfolding p by simp_all
  have v: "hex_value (getIntAligner 16 a 8) = a" "hex_value (getIntAligner 16 b 4) = b"
    "hex_value (getIntAligner 16 c 4) = c" "hex_value (getIntAligner 16 d 2) = d"
    "hex_value (getIntAligner 16 e 2) = e" "hex_value (getIntAligner 16 f 12) = f"
    using g(2,4,6,8,10,12) assms unfolding p by simp_all
  have "parse (getIntAligner 16 a 8 @ ''-'' @ getIntAligner 16 b 4 @ ''-'' @ getIntAligner 16 c 4
       @ ''-'' @ getIntAligner 16 d 2 @ getIntAligner 16 e 2 @ ''-'' @ getIntAligner 16 f 12)
    = Some (init [Num (hex_value (getIntAligner 16 a 8)), Num (hex_value (getIntAligner 16 b 4)),
        Num (hex_value (getIntAligner 16 c 4)), Num (hex_value (getIntAligner 16 d 2)),
        Num (hex_value (getIntAligner 16 e 2)), Num (hex_value (getIntAligner 16 f 12))])"
    by (rule parse_groups [OF refl l])
  then show ?thesis by (simp only: v UUID_toString_def init_fields(4))
qed

lemma genV4_roundtrip:
  assumes "valid_source rs"
  shows "parse (UUID_toString (fst (genV4 rs))) = Some (fst (genV4 rs))"
    and "equals (fst (genV4 rs)) (parse (UUID_toString (fst (genV4 rs))))"
proof -
  show r: "parse (UUID_toString (fst (genV4 rs))) = Some (fst (genV4 rs))"
  proof (rule genV4_fields [OF assms])
    fix a1 a2 r3 r4 a5 a6
    assume u: "fst (genV4 rs) = init [Num a1, Num a2, Num (4 * 4096 + r3), Num (128 + r4), Num a5, Num a6]"
      and b: "0 \<le> a1 \<and> a1 < 2 ^ 32" "0 \<le> a2 \<and> a2 < 2 ^ 16" "0 \<le> r3 \<and> r3 < 4096"
      "0 \<le> r4 \<and> r4 < 64" "0 \<le> a5 \<and> a5 < 2 ^ 8" "0 \<le> a6 \<and> a6 < 2 ^ 48"
    have "0 \<le> 4 * 4096 + r3 \<and> 4 * 4096 + r3 < 2 ^ 16" "0 \<le> 128 + r4 \<and> 128 + r4 < 2 ^ 8"
      using b by simp_all
    then show ?thesis unfolding u using b by (intro init_roundtrip) simp_all
  qed
  show "equals (fst (genV4 rs)) (parse (UUID_toString (fst (genV4 rs))))"
    unfolding r by (rule equals_refl)
qed


subsection \<open>The version 1 generator, step by step\<close>

lemma ToInt32_mod: "k \<le> 32 \<Longrightarrow> ToInt32 n mod 2 ^ k = n mod 2 ^ k"
  using take_bit_ToInt32 [of k n] by (simp add: take_bit_eq_mod)

lemma sequence_mask:
  "0 \<le> bit_and (ToInt32_number v) 0x3FFF" "bit_and (ToInt32_number v) 0x3FFF < 16384"
  "bit_and (ToInt32_number (Num n)) 0x3FFF = n mod 16384"
proof -
  show "0 \<le> bit_and (ToInt32_number v) 0x3FFF" "bit_and (ToInt32_number v) 0x3FFF < 16384"
    by (simp_all add: bit_and_masks)
  show "bit_and (ToInt32_number (Num n)) 0x3FFF = n mod 16384"
    using ToInt32_mod [of 14 n] by (simp add: bit_and_masks ToInt32_number_def)
qed

lemma genV1_unfold:
  "genV1 now rs st0 =
    (let st1 = fst (next_state now rs st0);
         tf = getTimeFieldValues (timestamp st1);
         seq = bit_and (ToInt32_number (sequence st1)) 0x3FFF
     in (init [Num (tf_low tf + tick st1), Num (tf_mid tf),
               Num (bit_or (bit_and (tf_hi tf) 0xFFF) 0x1000),
               Num (bit_or (shift_right_unsigned seq 8) 0x80), Num (bit_and seq 0xFF),
               st_node st1],
         snd (next_state now rs st0), st1\<lparr>sequence := Num seq\<rparr>))"
  by (simp add: genV1_def next_state_def split_def Let_def)

lemma next_state_facts:
  "timestamp (fst (next_state now rs st)) = now"
  "st_node (fst (next_state now rs st)) = st_node st"
  "now < timestamp st \<Longrightarrow> sequence (fst (next_state now rs st)) = increment (sequence st)"
  "now < timestamp st \<Longrightarrow> tick (fst (next_state now rs st)) = 0"
  "0 \<le> tick st \<Longrightarrow> 0 \<le> tick (fst (next_state now rs st))"
  "tick st \<le> 9999 \<Longrightarrow> tick (fst (next_state now rs st)) \<le> 9999"
  by (auto simp: next_state_def split_def Let_def)

lemma genV1_fields:
  obtains seq hi where
    "fst (genV1 now rs st)
      = init [Num (tf_low (getTimeFieldValues now) + tick (fst (next_state now rs st))),
              Num (tf_mid (getTimeFieldValues now)), Num (1 * 4096 + hi),
              Num (128 + seq div 256), Num (seq mod 256), st_node st]"
    "seq = bit_and (ToInt32_number (sequence (fst (next_state now rs st)))) 0x3FFF"
    "hi = tf_hi (getTimeFieldValues now) mod 4096"
    "0 \<le> seq \<and> seq < 16384" "0 \<le> hi \<and> hi < 4096"
    "snd (snd (genV1 now rs st)) = (fst (next_state now rs st))\<lparr>sequence := Num seq\<rparr>"
proof -
  define seq where "seq = bit_and (ToInt32_number (sequence (fst (next_state now rs st)))) 0x3FFF"
  define hi where "hi = tf_hi (getTimeFieldValues now) mod 4096"
  have s: "0 \<le> seq \<and> seq < 16384" using sequence_mask(1,2) by (simp add: seq_def)
  have h: "0 \<le> hi \<and> hi < 4096" by (simp add: hi_def)
  have q: "0 \<le> seq div 256 \<and> seq div 256 < 64" using s by auto
  have 1: "bit_or (bit_and (tf_hi (getTimeFieldValues now)) 0xFFF) 0x1000 = 1 * 4096 + hi"
    using h bit_or_1000 [of hi] by (simp add: bit_and_masks hi_def)
  have "shift_right_unsigned seq 8 = seq div 2 ^ nat 8"
    using s by (intro shift_right_unsigned_div) simp_all
  then have 2: "bit_or (shift_right_unsigned seq 8) 0x80 = 128 + seq div 256"
    using q bit_or_80' [of "seq div 256"] by simp
  have 3: "bit_and seq 0xFF = seq mod 256" by (simp add: bit_and_masks)
  have u: "fst (genV1 now rs st)
      = init [Num (tf_low (getTimeFieldValues now) + tick (fst (next_state now rs st))),
              Num (tf_mid (getTimeFieldValues now)), Num (1 * 4096 + hi),
              Num (128 + seq div 256), Num (seq mod 256), st_node st]"
    unfolding genV1_unfold Let_def fst_conv next_state_facts(1,2)
    by (simp only: 1 2 3 flip: seq_def)
  have t: "snd (snd (genV1 now rs st)) = (fst (next_state now rs st))\<lparr>sequence := Num seq\<rparr>"
    unfolding genV1_unfold Let_def snd_conv by (simp only: flip: seq_def)
  show ?thesis using u seq_def hi_def s h t by (rule that)
qed

lemma clock_sequence_init:
  assumes "0 \<le> seq" "seq < 16384"
  shows "clock_sequence (init [a, b, c, Num (128 + seq div 256), Num (seq mod 256), f]) = seq"
proof -
  let ?q = "seq div 256"
  have q: "0 \<le> ?q" "?q < 64" using assms by auto
  have "(64 * 2 + ?q) mod 64 = ?q mod 64" by (simp only: mod_mult_self4)
  then have "bit_and (128 + ?q) 0x3F = ?q" using q by (simp add: bit_and_masks)
  moreover have "shift_left ?q 8 = ?q * 2 ^ nat 8"
    using q by (intro shift_left_mult) simp_all
  moreover have "bit_or (?q * 2 ^ 8) (seq mod 256) = ?q * 2 ^ 8 + seq mod 256"
    using q by (intro bit_or_disjoint) simp_all
  ultimately show ?thesis
    by (simp add: clock_sequence_def init_third_fourth(3,4))
qed


section \<open>The claims about the generators\<close>

lemma valid_constant_source: "0 \<le> r \<Longrightarrow> r < 1 \<Longrightarrow> valid_source (constant_source r)"
  by (simp add: valid_source_def constant_source_def)

lemma init_version:
  "version (init [a, b, c, d, e, f])
    = bit_and (shift_right (timeHiAndVersion (init [a, b, c, d, e, f])) 12) 0xF"
  by (simp add: init_def sizes_def upt_6 Let_def timeHiAndVersion_def)

text \<open>
  Claim C4. For every valid random source the UUID of \<open>genV4\<close> has version 4, and for every
  clock reading, random source and generator state the UUID of \<open>genV1\<close> has version 1; the
  version is \<^verbatim>\<open>(timeHiAndVersion >> 12) & 0xF\<close>.
\<close>

theorem version_tagging:
  "(valid_source rs \<longrightarrow>
      version (fst (genV4 rs)) = 4
      \<and> version (fst (genV4 rs)) = bit_and (shift_right (timeHiAndVersion (fst (genV4 rs))) 12) 0xF)
   \<and> version (fst (genV1 now rs' st)) = 1
   \<and> version (fst (genV1 now rs' st))
       = bit_and (shift_right (timeHiAndVersion (fst (genV1 now rs' st))) 12) 0xF"
proof (intro conjI impI)
  assume v: "valid_source rs"
  show "version (fst (genV4 rs)) = 4"
  proof (rule genV4_fields [OF v])
    fix a1 a2 r3 r4 a5 a6
    assume "fst (genV4 rs) = init [Num a1, Num a2, Num (4 * 4096 + r3), Num (128 + r4), Num a5, Num a6]"
      and "0 \<le> r3 \<and> r3 < 4096"
    then show ?thesis using version_tag [of r3 4] by (simp add: init_third_fourth(2))
  qed
  show "version (fst (genV4 rs)) = bit_and (shift_right (timeHiAndVersion (fst (genV4 rs))) 12) 0xF"
    unfolding genV4_eq Let_def by (rule init_version)
next
  show "version (fst (genV1 now rs' st)) = 1"
  proof (rule genV1_fields [of now rs' st])
    fix seq hi
    assume "fst (genV1 now rs' st)
      = init [Num (tf_low (getTimeFieldValues now) + tick (fst (next_state now rs' st))),
              Num (tf_mid (getTimeFieldValues now)), Num (1 * 4096 + hi),
              Num (128 + seq div 256), Num (seq mod 256), st_node st]"
      and "0 \<le> hi \<and> hi < 4096"
    then show ?thesis using version_tag [of hi 1] by (simp add: init_third_fourth(2))
  qed
  show "version (fst (genV1 now rs' st))
       = bit_and (shift_right (timeHiAndVersion (fst (genV1 now rs' st))) 12) 0xF"
    unfolding genV1_unfold Let_def fst_conv by (rule init_version)
qed

theorem version_tagging_witness:
  "valid_source (constant_source (1 / 2)) \<and> version (fst (genV4 (constant_source (1 / 2)))) = 4"
proof -
  have v: "valid_source (constant_source (1 / 2))" by (simp add: valid_constant_source)
  show ?thesis
    using v version_tagging [of "constant_source (1 / 2)", THEN conjunct1, rule_format, OF v]
    by (intro conjI) simp_all
qed

text \<open>
  Claim C5. For every UUID of \<open>genV4\<close> (valid random source) and of \<open>genV1\<close> (every clock
  reading, random source and state), \<^verbatim>\<open>clockSeqHiAndReserved & 0xC0\<close> is \<open>0x80\<close>, and
  the field fits in 8 bits.
\<close>

theorem variant_tagging:
  "(valid_source rs \<longrightarrow>
      bit_and (clockSeqHiAndReserved (fst (genV4 rs))) 0xC0 = 0x80
      \<and> 0 \<le> clockSeqHiAndReserved (fst (genV4 rs)) \<and> clockSeqHiAndReserved (fst (genV4 rs)) < 2 ^ 8)
   \<and> bit_and (clockSeqHiAndReserved (fst (genV1 now rs' st))) 0xC0 = 0x80
   \<and> 0 \<le> clockSeqHiAndReserved (fst (genV1 now rs' st))
   \<and> clockSeqHiAndReserved (fst (genV1 now rs' st)) < 2 ^ 8"
proof -
  have 4: "bit_and (clockSeqHiAndReserved (fst (genV4 rs))) 0xC0 = 0x80
      \<and> 0 \<le> clockSeqHiAndReserved (fst (genV4 rs)) \<and> clockSeqHiAndReserved (fst (genV4 rs)) < 2 ^ 8"
    if v: "valid_source rs"
  proof (rule genV4_fields [OF v])
    fix a1 a2 r3 r4 a5 a6
    assume "fst (genV4 rs) = init [Num a1, Num a2, Num (4 * 4096 + r3), Num (128 + r4), Num a5, Num a6]"
      and "0 \<le> r4 \<and> r4 < 64"
    then show ?thesis using variant_bits [of r4] by (simp add: init_third_fourth(3))
  qed
  have 1: "bit_and (clockSeqHiAndReserved (fst (genV1 now rs' st))) 0xC0 = 0x80
   \<and> 0 \<le> clockSeqHiAndReserved (fst (genV1 now rs' st))
   \<and> clockSeqHiAndReserved (fst (genV1 now rs' st)) < 2 ^ 8"
  proof (rule genV1_fields [of now rs' st])
    fix seq hi
    assume u: "fst (genV1 now rs' st)
      = init [Num (tf_low (getTimeFieldValues now) + tick (fst (next_state now rs' st))),
              Num (tf_mid (getTimeFieldValues now)), Num (1 * 4096 + hi),
              Num (128 + seq div 256), Num (seq mod 256), st_node st]"
      and s: "0 \<le> seq \<and> seq < 16384"
    have "0 \<le> seq div 256 \<and> seq div 256 < 64" using s by auto
    then show ?thesis using variant_bits [of "seq div 256"] by (simp add: u init_third_fourth(3))
  qed
  show ?thesis using 4 1 by blast
qed

theorem variant_tagging_witness:
  "valid_source (constant_source (1 / 2))
   \<and> bit_and (clockSeqHiAndReserved (fst (genV4 (constant_source (1 / 2))))) 0xC0 = 0x80"
proof -
  have v: "valid_source (constant_source (1 / 2))" by (simp add: valid_constant_source)
  show ?thesis
    using v variant_tagging [of "constant_source (1 / 2)", THEN conjunct1, rule_format, OF v]
    by (intro conjI) simp_all
qed

lemma genV1_clock_sequence:
  "\<exists>seq. clock_sequence (fst (genV1 now rs st)) = seq
     \<and> sequence (snd (snd (genV1 now rs st))) = Num seq
     \<and> seq = bit_and (ToInt32_number (sequence (fst (next_state now rs st)))) 0x3FFF
     \<and> 0 \<le> seq \<and> seq < 16384"
proof (rule genV1_fields [of now rs st])
  fix seq hi
  assume u: "fst (genV1 now rs st)
      = init [Num (tf_low (getTimeFieldValues now) + tick (fst (next_state now rs st))),
              Num (tf_mid (getTimeFieldValues now)), Num (1 * 4096 + hi),
              Num (128 + seq div 256), Num (seq mod 256), st_node st]"
    and d: "seq = bit_and (ToInt32_number (sequence (fst (next_state now rs st)))) 0x3FFF"
    and s: "0 \<le> seq \<and> seq < 16384"
    and t: "snd (snd (genV1 now rs st)) = (fst (next_state now rs st))\<lparr>sequence := Num seq\<rparr>"
  have "clock_sequence (fst (genV1 now rs st)) = seq"
    unfolding u using s by (intro clock_sequence_init) simp_all
  moreover have "sequence (snd (snd (genV1 now rs st))) = Num seq" by (simp add: t)
  ultimately show ?thesis using d s by blast
qed

lemma genV1_timestamp: "timestamp (snd (snd (genV1 now rs st))) = now"
  by (simp add: genV1_unfold Let_def next_state_facts(1))

text \<open>
  Claim C7. When a call of \<open>genV1\<close> is followed by a call that reads a clock value strictly
  below the stored timestamp, the 14-bit clock sequence of the second UUID is that of the
  first plus one modulo \<open>2 ^ 14\<close>, and differs from it. The state before the first call and
  both random sources are arbitrary.
\<close>

theorem clock_regression:
  assumes "now2 < timestamp (snd (snd (genV1 now1 rs1 st0)))"
  shows "clock_sequence (fst (genV1 now2 rs2 (snd (snd (genV1 now1 rs1 st0)))))
      = (clock_sequence (fst (genV1 now1 rs1 st0)) + 1) mod 2 ^ 14
    \<and> clock_sequence (fst (genV1 now2 rs2 (snd (snd (genV1 now1 rs1 st0)))))
      \<noteq> clock_sequence (fst (genV1 now1 rs1 st0))"
proof -
  let ?st1 = "snd (snd (genV1 now1 rs1 st0))"
  obtain s1 where s1: "clock_sequence (fst (genV1 now1 rs1 st0)) = s1"
    "sequence ?st1 = Num s1" "0 \<le> s1 \<and> s1 < 16384"
    using genV1_clock_sequence [of now1 rs1 st0] by blast
  obtain s2 where s2: "clock_sequence (fst (genV1 now2 rs2 ?st1)) = s2"
    "s2 = bit_and (ToInt32_number (sequence (fst (next_state now2 rs2 ?st1)))) 0x3FFF"
    using genV1_clock_sequence [of now2 rs2 ?st1] by blast
  have "sequence (fst (next_state now2 rs2 ?st1)) = Num (s1 + 1)"
    using assms by (simp add: next_state_facts(3) s1(2) increment_def)
  then have "s2 = (s1 + 1) mod 16384" using s2(2) by (simp add: sequence_mask(3))
  moreover have "(s1 + 1) mod 16384 \<noteq> s1"
  proof (cases "s1 = 16383")
    case True
    then show ?thesis by simp
  next
    case False
    then have "(s1 + 1) mod 16384 = s1 + 1" using s1(3) by simp
    then show ?thesis by simp
  qed
  ultimately show ?thesis by (simp add: s1(1) s2(1))
qed

theorem clock_regression_witness:
  "(100::int) < timestamp (snd (snd (genV1 200 (constant_source 0)
        \<lparr>timestamp = 0, sequence = Num 16383, st_node = Num 1099511627776, tick = 0\<rparr>)))
   \<and> clock_sequence (fst (genV1 200 (constant_source 0)
        \<lparr>timestamp = 0, sequence = Num 16383, st_node = Num 1099511627776, tick = 0\<rparr>)) = 16383
   \<and> clock_sequence (fst (genV1 100 (constant_source 0) (snd (snd (genV1 200 (constant_source 0)
        \<lparr>timestamp = 0, sequence = Num 16383, st_node = Num 1099511627776, tick = 0\<rparr>))))) = 0"
proof -
  let ?st0 = "\<lparr>timestamp = 0, sequence = Num 16383, st_node = Num 1099511627776, tick = 0\<rparr>"
  let ?st1 = "snd (snd (genV1 200 (constant_source 0) ?st0))"
  have h: "(100::int) < timestamp ?st1" by (simp add: genV1_timestamp)
  have "sequence (fst (next_state 200 (constant_source 0) ?st0)) = Num 16383"
    by (simp add: next_state_def)
  then have c: "clock_sequence (fst (genV1 200 (constant_source 0) ?st0)) = 16383"
    using genV1_clock_sequence [of 200 "constant_source 0" ?st0] by (simp add: sequence_mask(3))
  show ?thesis
    using h c clock_regression [OF h, of "constant_source 0"] by simp
qed


subsection \<open>The node of the generator state\<close>

lemma bit_or_one:
  assumes "0 \<le> a" "a < 256"
  shows "odd (bit_or a 1)" "0 < bit_or a 1" "bit_or a 1 < 256"
proof -
  have e: "bit_or a 1 = a + of_bool (even a)"
    using assms by (simp add: bit_or_def ToInt32_id or_one_eq)
  show "odd (bit_or a 1)" unfolding e by simp
  show "0 < bit_or a 1"
  proof (cases "even a")
    case True
    then show ?thesis unfolding e using assms by simp
  next
    case False
    then have "a \<noteq> 0" by auto
    then show ?thesis unfolding e using assms False by simp
  qed
  show "bit_or a 1 < 256"
  proof (cases "even a")
    case True
    then have "a \<noteq> 255" by auto
    then show ?thesis unfolding e using assms True by simp
  next
    case False
    then show ?thesis unfolding e using assms by simp
  qed
qed

lemma UUIDState_new_eq:
  "fst (UUIDState_new rs) =
    (let rs1 = snd (getRandomInt 14 rs); rs2 = snd (getRandomInt 8 rs1)
     in \<lparr>timestamp = 0, sequence = fst (getRandomInt 14 rs),
         st_node = add_number (bit_or (ToInt32_number (fst (getRandomInt 8 rs1))) 1 * 0x10000000000)
                     (fst (getRandomInt 40 rs2)),
         tick = 0\<rparr>)"
  by (simp add: UUIDState_new_def split_def Let_def)

lemma UUIDState_new_node:
  assumes "valid_source rs"
  obtains m b where "st_node (fst (UUIDState_new rs)) = Num (m * 2 ^ 40 + b)"
    "odd m" "0 < m" "m < 256" "0 \<le> b" "b < 2 ^ 40"
proof -
  define rs1 where "rs1 = snd (getRandomInt 14 rs)"
  define rs2 where "rs2 = snd (getRandomInt 8 rs1)"
  have v: "valid_source rs1" "valid_source rs2"
    using assms by (simp_all add: rs1_def rs2_def valid_source_snd)
  obtain a where a: "fst (getRandomInt 8 rs1) = Num a" "0 \<le> a \<and> a < 2 ^ 8"
    using getRandomInt_bounds [OF v(1), of 8] by auto
  obtain b where b: "fst (getRandomInt 40 rs2) = Num b" "0 \<le> b \<and> b < 2 ^ 40"
    using getRandomInt_bounds [OF v(2), of 40] by auto
  have "ToInt32_number (Num a) = a" using a(2) by (simp add: ToInt32_number_def ToInt32_id)
  then have "st_node (fst (UUIDState_new rs)) = Num (bit_or a 1 * 2 ^ 40 + b)"
    by (simp add: UUIDState_new_eq Let_def a(1) b(1) add_number_def flip: rs1_def rs2_def)
  moreover have "odd (bit_or a 1)" "0 < bit_or a 1" "bit_or a 1 < 256"
    using a(2) bit_or_one [of a] by simp_all
  ultimately show ?thesis using b(2) by (intro that [of "bit_or a 1" b]) simp_all
qed

lemma genV1_node:
  "node (fst (genV1 now rs st)) = (case st_node st of NaN \<Rightarrow> 0 | Num n \<Rightarrow> n)"
  "st_node (snd (snd (genV1 now rs st))) = st_node st"
  by (simp_all add: genV1_unfold Let_def next_state_facts(2) init_def sizes_def upt_6
      argument_or_zero_def parseInt_number_def node_def)

text \<open>
  Claim C9, as amended. The initial state's node is a 48-bit value whose bit 40, the least
  significant bit of its first octet, is 1; \<open>genV1\<close> leaves the node of the state unchanged and
  returns it as the node field of every UUID. (Bit 0 of the node is a random bit.)
\<close>

theorem node_multicast_bit:
  assumes "valid_source rs"
  shows "\<exists>n. st_node (fst (UUIDState_new rs)) = Num n
      \<and> 0 \<le> n \<and> n < 2 ^ 48 \<and> (n div 2 ^ 40) mod 2 = 1
      \<and> (\<forall>now rs' st. st_node st = Num n \<longrightarrow>
            node (fst (genV1 now rs' st)) = n
            \<and> st_node (snd (snd (genV1 now rs' st))) = Num n)"
proof (rule UUIDState_new_node [OF assms])
  fix m b :: int
  assume n: "st_node (fst (UUIDState_new rs)) = Num (m * 2 ^ 40 + b)"
    and m: "odd m" "0 < m" "m < 256" and b: "0 \<le> b" "b < 2 ^ 40"
  have "m + 1 \<le> 256" using m by simp
  then have "(m + 1) * 2 ^ 40 \<le> 256 * (2 ^ 40 :: int)" by (rule mult_right_mono) simp
  then have u: "m * 2 ^ 40 + b < 2 ^ 48" using b by (simp add: algebra_simps)
  have l: "0 \<le> m * 2 ^ 40 + b" using m b by simp
  have "(m * 2 ^ 40 + b) div 2 ^ 40 = m" using b by simp
  then have o: "((m * 2 ^ 40 + b) div 2 ^ 40) mod 2 = 1" using m(1) by (simp add: odd_iff_mod_2_eq_one)
  have "\<forall>now rs' st. st_node st = Num (m * 2 ^ 40 + b) \<longrightarrow>
      node (fst (genV1 now rs' st)) = m * 2 ^ 40 + b
      \<and> st_node (snd (snd (genV1 now rs' st))) = Num (m * 2 ^ 40 + b)"
    by (simp add: genV1_node)
  then show ?thesis using n l u o by blast
qed

theorem node_multicast_bit_witness:
  "valid_source (constant_source 0)
   \<and> st_node (fst (UUIDState_new (constant_source 0))) = Num 1099511627776
   \<and> (1099511627776 div 2 ^ 40) mod 2 = (1::int)
   \<and> node (fst (genV1 1793659055471 (constant_source 0) (fst (UUIDState_new (constant_source 0)))))
       = 1099511627776"
proof -
  have v: "valid_source (constant_source 0)" by (simp add: valid_source_def constant_source_def)
  have e: "st_node (fst (UUIDState_new (constant_source 0))) = Num 1099511627776" by code_simp
  obtain n where n: "st_node (fst (UUIDState_new (constant_source 0))) = Num n"
    "\<forall>now rs' st. st_node st = Num n \<longrightarrow>
        node (fst (genV1 now rs' st)) = n \<and> st_node (snd (snd (genV1 now rs' st))) = Num n"
    using node_multicast_bit [OF v] by blast
  have "n = 1099511627776" using n(1) e by simp
  then have "node (fst (genV1 1793659055471 (constant_source 0) (fst (UUIDState_new (constant_source 0)))))
       = 1099511627776"
    using n(2) e by blast
  then show ?thesis using v e by simp
qed

text \<open>
  The claim as stated fails: with every draw 0 the node is \<open>2 ^ 40\<close>, an even number.
\<close>

theorem node_bit_zero_counterexample:
  "valid_source (constant_source 0)
   \<and> st_node (fst (UUIDState_new (constant_source 0))) = Num 1099511627776
   \<and> (1099511627776::int) mod 2 \<noteq> 1"
proof -
  have "valid_source (constant_source 0)" by (simp add: valid_source_def constant_source_def)
  moreover have "st_node (fst (UUIDState_new (constant_source 0))) = Num 1099511627776"
    by code_simp
  ultimately show ?thesis by simp
qed


subsection \<open>The width invariant\<close>

lemma genV4_width:
  assumes "valid_source rs"
  shows "width_invariant (fst (genV4 rs))"
proof (rule genV4_fields [OF assms])
  fix a1 a2 r3 r4 a5 a6
  assume u: "fst (genV4 rs) = init [Num a1, Num a2, Num (4 * 4096 + r3), Num (128 + r4), Num a5, Num a6]"
    and b: "0 \<le> a1 \<and> a1 < 2 ^ 32" "0 \<le> a2 \<and> a2 < 2 ^ 16" "0 \<le> r3 \<and> r3 < 4096"
    "0 \<le> r4 \<and> r4 < 64" "0 \<le> a5 \<and> a5 < 2 ^ 8" "0 \<le> a6 \<and> a6 < 2 ^ 48"
  show ?thesis unfolding u width_invariant_init using b by simp
qed

text \<open>
  Claim C2, as amended. The initializer stores each of its six integer arguments unchanged:
  it neither masks nor rejects. So the stored fields satisfy the width invariant exactly when
  the arguments do. Every parsed UUID and every UUID of \<open>genV4\<close> satisfies it. (The arguments
  are taken below \<open>10 ^ 21\<close> in magnitude, where \<^verbatim>\<open>parseInt\<close> of a number is the number.)
\<close>

theorem init_stores_arguments:
  "(\<bar>a\<bar> < 10 ^ 21 \<and> \<bar>b\<bar> < 10 ^ 21 \<and> \<bar>c\<bar> < 10 ^ 21 \<and> \<bar>d\<bar> < 10 ^ 21 \<and> \<bar>e\<bar> < 10 ^ 21 \<and> \<bar>f\<bar> < 10 ^ 21
      \<longrightarrow> intFields (init [Num a, Num b, Num c, Num d, Num e, Num f]) = [a, b, c, d, e, f]
        \<and> (width_invariant (init [Num a, Num b, Num c, Num d, Num e, Num f])
            \<longleftrightarrow> (0 \<le> a \<and> a < 2 ^ 32) \<and> (0 \<le> b \<and> b < 2 ^ 16) \<and> (0 \<le> c \<and> c < 2 ^ 16)
              \<and> (0 \<le> d \<and> d < 2 ^ 8) \<and> (0 \<le> e \<and> e < 2 ^ 8) \<and> (0 \<le> f \<and> f < 2 ^ 48)))
   \<and> (parse s = Some u \<longrightarrow> width_invariant u)
   \<and> (valid_source rs \<longrightarrow> width_invariant (fst (genV4 rs)))"
  using parse_width [of s u] genV4_width [of rs]
  by (simp add: init_fields(1) width_invariant_init)

theorem init_stores_arguments_witness:
  "intFields (init [Num 4294967295, Num 65535, Num 65535, Num 255, Num 255, Num 281474976710655])
     = [4294967295, 65535, 65535, 255, 255, 281474976710655]
   \<and> width_invariant (init [Num 4294967295, Num 65535, Num 65535, Num 255, Num 255, Num 281474976710655])
   \<and> parse ''ffffffff-ffff-ffff-ffff-ffffffffffff''
       = Some (init [Num 4294967295, Num 65535, Num 65535, Num 255, Num 255, Num 281474976710655])
   \<and> valid_source (constant_source (1 / 2))
   \<and> width_invariant (fst (genV4 (constant_source (1 / 2))))"
proof -
  let ?u = "init [Num 4294967295, Num 65535, Num 65535, Num 255, Num 255, Num 281474976710655]"
  note t = init_stores_arguments [of 4294967295 65535 65535 255 255 281474976710655
      "''ffffffff-ffff-ffff-ffff-ffffffffffff''" ?u "constant_source (1 / 2)"]
  have v: "valid_source (constant_source (1 / 2))" by (simp add: valid_constant_source)
  have "UUID_toString ?u = ''ffffffff-ffff-ffff-ffff-ffffffffffff''"
    unfolding UUID_toString_def by code_simp
  then have p: "parse ''ffffffff-ffff-ffff-ffff-ffffffffffff'' = Some ?u"
    using init_roundtrip [of 4294967295 65535 65535 255 255 281474976710655] by simp
  have 1: "intFields ?u = [4294967295, 65535, 65535, 255, 255, 281474976710655]"
    "width_invariant ?u"
    using t by simp_all
  have 2: "width_invariant (fst (genV4 (constant_source (1 / 2))))"
    using t v by (simp only: simp_thms)
  show ?thesis using 1 2 p v by (intro conjI)
qed

text \<open>
  The claim as stated fails: an argument of \<open>2 ^ 32\<close> for the 32-bit field is stored as it
  is, not masked.
\<close>

theorem init_no_masking_counterexample:
  "timeLow (init [Num 4294967296, Num 0, Num 0, Num 0, Num 0, Num 0]) = 4294967296
   \<and> \<not> width_invariant (init [Num 4294967296, Num 0, Num 0, Num 0, Num 0, Num 0])"
  by (simp add: timeLow_def init_fields(1) width_invariant_init)

lemma genV1_time_fields:
  "timeLow (fst (genV1 now rs st)) = tf_low (getTimeFieldValues now) + tick (fst (next_state now rs st))"
  "timeMid (fst (genV1 now rs st)) = tf_mid (getTimeFieldValues now)"
  "timeHiAndVersion (fst (genV1 now rs st)) = 4096 + tf_hi (getTimeFieldValues now) mod 4096"
proof -
  obtain seq hi where u: "fst (genV1 now rs st)
      = init [Num (tf_low (getTimeFieldValues now) + tick (fst (next_state now rs st))),
              Num (tf_mid (getTimeFieldValues now)), Num (1 * 4096 + hi),
              Num (128 + seq div 256), Num (seq mod 256), st_node st]"
    and h: "hi = tf_hi (getTimeFieldValues now) mod 4096"
    by (rule genV1_fields [of now rs st])
  show "timeLow (fst (genV1 now rs st)) = tf_low (getTimeFieldValues now) + tick (fst (next_state now rs st))"
    "timeMid (fst (genV1 now rs st)) = tf_mid (getTimeFieldValues now)"
    "timeHiAndVersion (fst (genV1 now rs st)) = 4096 + tf_hi (getTimeFieldValues now) mod 4096"
    unfolding u h
    by (simp_all add: init_def sizes_def upt_6 argument_or_zero_def parseInt_number_def Let_def
        timeLow_def timeMid_def timeHiAndVersion_def)
qed

subsection \<open>The time fields where the double is exact\<close>

lemma round53_exact: "\<bar>m\<bar> < 2 ^ 53 \<Longrightarrow> round53 m = m"
proof -
  assume "\<bar>m\<bar> < 2 ^ 53"
  then have "bitlen \<bar>m\<bar> \<le> 53" by (simp add: bitlen_le_iff_power)
  then show ?thesis by (simp add: round53_def)
qed

lemma round_double_exact:
  assumes "\<bar>m\<bar> < 2 ^ 53"
  shows "round_double (of_int m / 2 ^ j) = of_int m / 2 ^ j"
proof -
  let ?g = "gcd m (2 ^ j)"
  have q: "quotient_of (of_int m / 2 ^ j) = (m div ?g, 2 ^ j div ?g)"
  proof -
    have "(of_int m / 2 ^ j :: rat) = Fract m (2 ^ j)" by (simp add: Fract_of_int_quotient)
    then show ?thesis by (simp add: quotient_of_Fract Rat.normalize_def Let_def)
  qed
  have g: "0 < ?g" by (simp add: gcd_pos_int)
  have "m = ?g * (m div ?g)" by simp
  then have "\<bar>m\<bar> = ?g * \<bar>m div ?g\<bar>" using g by (metis abs_mult abs_of_pos)
  moreover have "1 * \<bar>m div ?g\<bar> \<le> ?g * \<bar>m div ?g\<bar>"
    using g by (intro mult_right_mono) linarith+
  ultimately have "\<bar>m div ?g\<bar> < 2 ^ 53" using assms by simp
  then have r: "round53 (m div ?g) = m div ?g" by (rule round53_exact)
  have "round_double (of_int m / 2 ^ j) = of_int (round53 (m div ?g)) / of_int (2 ^ j div ?g)"
    by (simp only: round_double_def q Let_def prod.case)
  also have "\<dots> = of_int (m div ?g) / of_int (2 ^ j div ?g)" by (simp only: r)
  also have "\<dots> = of_int m / 2 ^ j" using quotient_of_div [OF q] by (simp only:)
  finally show ?thesis .
qed

lemma remainder_nonneg: "0 \<le> a \<Longrightarrow> remainder a b = a mod \<bar>b\<bar>"
  by (cases "a = 0") (simp_all add: remainder_def)

lemma tf_low_exact:
  "tf_low (getTimeFieldValues time) = ((time - Date_UTC_1582_10_15) * 10000) mod 2 ^ 32"
proof -
  let ?ts = "time - Date_UTC_1582_10_15"
  have "?ts * 10000 = (?ts mod 268435456) * 10000 + 4294967296 * (625 * (?ts div 268435456))"
  proof -
    have "?ts = 268435456 * (?ts div 268435456) + ?ts mod 268435456" by simp
    then have "?ts * 10000 = (268435456 * (?ts div 268435456) + ?ts mod 268435456) * 10000"
      by (simp only:)
    then show ?thesis by (simp only: algebra_simps)
  qed
  then have "(?ts * 10000) mod 4294967296 = ((?ts mod 268435456) * 10000) mod 4294967296"
    by (simp only: mod_mult_self2)
  moreover have "0 \<le> (?ts mod 268435456) * 10000" by simp
  ultimately show ?thesis
    by (simp add: getTimeFieldValues_def Let_def bit_and_masks remainder_nonneg)
qed

lemma tf_low_range:
  "0 \<le> tf_low (getTimeFieldValues time)" "tf_low (getTimeFieldValues time) < 2 ^ 32"
  by (simp_all add: tf_low_exact)

lemma tf_mid_range:
  "0 \<le> tf_mid (getTimeFieldValues time)" "tf_mid (getTimeFieldValues time) < 2 ^ 16"
  by (simp_all add: getTimeFieldValues_def Let_def bit_and_masks)

lemma getTimeFieldValues_exact:
  assumes "0 \<le> time - Date_UTC_1582_10_15" "(time - Date_UTC_1582_10_15) * 625 < 2 ^ 53"
  shows "tf_low (getTimeFieldValues time) = ((time - Date_UTC_1582_10_15) * 10000) mod 2 ^ 32"
    and "tf_mid (getTimeFieldValues time) = ((time - Date_UTC_1582_10_15) * 10000 div 2 ^ 32) mod 2 ^ 16"
    and "tf_hi (getTimeFieldValues time) = ((time - Date_UTC_1582_10_15) * 10000 div 2 ^ 48) mod 2 ^ 12"
proof -
  let ?ts = "time - Date_UTC_1582_10_15"
  let ?n = "?ts * 10000 div 2 ^ 32"
  have "?ts * 1 \<le> ?ts * 625" using assms(1) by (intro mult_left_mono) simp_all
  then have small: "\<bar>?ts\<bar> < 2 ^ 53" "\<bar>?ts * 625\<bar> < 2 ^ 53" using assms by simp_all
  have 1: "round_double (of_int ?ts / 0x100000000) = of_int ?ts / 2 ^ 32"
    using round_double_exact [OF small(1), of 32] by simp
  have "(of_int ?ts / 2 ^ 32 * 10000 :: rat) = of_int (?ts * 625) / 2 ^ 28" by simp
  then have 2: "round_double (of_int ?ts / 2 ^ 32 * 10000) = of_int (?ts * 625) / 2 ^ 28"
    using round_double_exact [OF small(2), of 28] by (simp only:)
  have "(0::rat) \<le> of_int (?ts * 625) / 2 ^ 28" using assms(1) by simp
  then have "ToInteger (of_int (?ts * 625) / 2 ^ 28) = \<lfloor>of_int (?ts * 625) / of_int (2 ^ 28) :: rat\<rfloor>"
    by (simp add: ToInteger_def)
  also have "\<dots> = ?ts * 625 div 2 ^ 28" by (rule floor_divide_of_int_eq)
  also have "\<dots> = ?n"
  proof -
    have "?ts * 10000 div 2 ^ 32 = (16 * (?ts * 625)) div (16 * 2 ^ 28)" by simp
    also have "\<dots> = ?ts * 625 div 2 ^ 28" by (rule div_mult_mult1) simp
    finally show ?thesis by simp
  qed
  finally have 3: "ToInteger (round_double (round_double (of_int ?ts / 0x100000000) * 10000)) = ?n"
    by (simp only: 1 2)
  have hm: "bit_and (ToInteger (round_double (round_double (of_int ?ts / 0x100000000) * 10000))) 0xFFFFFFF
      = ?n mod 2 ^ 28"
    by (simp only: 3 bit_and_masks) simp
  show "tf_low (getTimeFieldValues time) = (?ts * 10000) mod 2 ^ 32" by (rule tf_low_exact)
  have "tf_mid (getTimeFieldValues time) = bit_and (?n mod 2 ^ 28) 0xFFFF"
    by (simp only: getTimeFieldValues_def Let_def TimeFieldValues.select_convs hm)
  also have "\<dots> = (?n mod 2 ^ 28) mod 2 ^ 16"
    by (simp only: bit_and_masks) simp
  also have "\<dots> = ?n mod 2 ^ 16"
    by (rule mod_mod_cancel) (simp add: le_imp_power_dvd)
  finally show "tf_mid (getTimeFieldValues time) = ?n mod 2 ^ 16" .
  have r: "0 \<le> ?n mod 2 ^ 28" "?n mod 2 ^ 28 < 2 ^ 32"
  proof -
    show "0 \<le> ?n mod 2 ^ 28" by simp
    have "?n mod 2 ^ 28 < 2 ^ 28" by simp
    also have "(2::int) ^ 28 < 2 ^ 32" by simp
    finally show "?n mod 2 ^ 28 < 2 ^ 32" .
  qed
  have "tf_hi (getTimeFieldValues time) = shift_right_unsigned (?n mod 2 ^ 28) 16"
    by (simp only: getTimeFieldValues_def Let_def TimeFieldValues.select_convs hm)
  also have "\<dots> = (?n mod 2 ^ 28) div 2 ^ nat 16"
    using r by (intro shift_right_unsigned_div) simp_all
  also have "\<dots> = (?n div 2 ^ 16) mod 2 ^ 12"
    using div_exp_mod_exp_eq [of ?n 16 12] by simp
  also have "?n div 2 ^ 16 = ?ts * 10000 div 2 ^ 48"
    using div_exp_eq [of "?ts * 10000" 32 16] by simp
  finally show "tf_hi (getTimeFieldValues time) = (?ts * 10000 div 2 ^ 48) mod 2 ^ 12" .
qed

subsection \<open>Round trip of a version 1 UUID whose low time field does not overflow\<close>

lemma genV1_roundtrip:
  assumes "st_node st = Num n" "0 \<le> n" "n < 2 ^ 48" "0 \<le> tick st"
    and "timeLow (fst (genV1 now rs st)) < 2 ^ 32"
  shows "parse (UUID_toString (fst (genV1 now rs st))) = Some (fst (genV1 now rs st))"
    and "equals (fst (genV1 now rs st)) (parse (UUID_toString (fst (genV1 now rs st))))"
proof -
  show r: "parse (UUID_toString (fst (genV1 now rs st))) = Some (fst (genV1 now rs st))"
  proof (rule genV1_fields [of now rs st])
    fix seq hi
    let ?tl = "tf_low (getTimeFieldValues now) + tick (fst (next_state now rs st))"
    assume u: "fst (genV1 now rs st)
        = init [Num ?tl, Num (tf_mid (getTimeFieldValues now)), Num (1 * 4096 + hi),
                Num (128 + seq div 256), Num (seq mod 256), st_node st]"
      and s: "0 \<le> seq \<and> seq < 16384" and h: "0 \<le> hi \<and> hi < 4096"
    have "0 \<le> tick (fst (next_state now rs st))" using assms(4) by (rule next_state_facts(5))
    then have 1: "0 \<le> ?tl \<and> ?tl < 2 ^ 32"
      using tf_low_range(1) [of now] assms(5) by (simp add: genV1_time_fields(1))
    have 2: "0 \<le> tf_mid (getTimeFieldValues now) \<and> tf_mid (getTimeFieldValues now) < 2 ^ 16"
      using tf_mid_range [of now] by simp
    have 3: "0 \<le> 1 * 4096 + hi \<and> 1 * 4096 + hi < 2 ^ 16" using h by simp
    have 4: "0 \<le> 128 + seq div 256 \<and> 128 + seq div 256 < 2 ^ 8" using s by auto
    have 5: "0 \<le> seq mod 256 \<and> seq mod 256 < 2 ^ 8" by simp
    have 6: "0 \<le> n \<and> n < 2 ^ 48" using assms(2,3) by simp
    show ?thesis unfolding u assms(1) using 1 2 3 4 5 6 by (rule init_roundtrip)
  qed
  show "equals (fst (genV1 now rs st)) (parse (UUID_toString (fst (genV1 now rs st))))"
    unfolding r by (rule equals_refl)
qed

lemma genV1_state_invariant:
  assumes "st_node st = Num n" "0 \<le> tick st" "tick st \<le> 9999"
  shows "st_node (snd (snd (genV1 now rs st))) = Num n"
    and "0 \<le> tick (snd (snd (genV1 now rs st)))" and "tick (snd (snd (genV1 now rs st))) \<le> 9999"
  using assms next_state_facts(5,6) [of st now rs]
  by (simp_all add: genV1_unfold Let_def next_state_facts(2))

section \<open>Where the version 1 generator departs from the specification\<close>

text \<open>
  Claim C6 says that for every stored timestamp \<open>t\<close>, with \<open>N\<close> the number of 100-nanosecond
  intervals from 15 October 1582 to \<open>t\<close>, the UUID of \<open>genV1\<close> has \<open>timeLow = N mod 2 ^ 32 + tick\<close>,
  \<open>timeMid = (N div 2 ^ 32) mod 2 ^ 16\<close> and the low 12 bits of \<open>timeHiAndVersion\<close> equal to
  \<open>(N div 2 ^ 48) mod 2 ^ 12\<close>. The code departs from it. \<open>getTimeFieldValues\<close> takes the middle
  and high groups from the double \<^verbatim>\<open>(ts / 0x100000000) * 10000\<close>. From
  \<open>ts * 625 \<ge> 2 ^ 53\<close> on, that is from June 2039, the product no longer fits a double and is
  rounded; when it is rounded up to an integer, the middle group is one too large. At the
  clock reading 2192285707631 (2039-06-21T16:15:07.631Z) \<open>timeMid\<close> is 139 where the exact
  split gives 138. Below that bound, and from 15 October 1582 on, the code computes the exact
  split (\<open>getTimeFieldValues_exact\<close>).
\<close>

theorem time_fields_rounding:
  "timeMid (fst (genV1 2192285707631 (constant_source 0) (fst (UUIDState_new (constant_source 0))))) = 139
   \<and> ((2192285707631 - Date_UTC_1582_10_15) * 10000 div 2 ^ 32) mod 2 ^ 16 = (138 :: int)"
proof -
  have "tf_mid (getTimeFieldValues 2192285707631) = 139" by code_simp
  moreover have "((2192285707631 - Date_UTC_1582_10_15) * 10000 div 2 ^ 32) mod 2 ^ 16 = (138 :: int)"
    by (simp add: Date_UTC_1582_10_15_def)
  ultimately show ?thesis by (simp add: genV1_time_fields(2))
qed

text \<open>
  Claim C1 says that for every UUID \<open>u\<close> of \<open>genV4\<close> or \<open>genV1\<close>, \<open>parse (toString u)\<close> is a
  UUID and equals \<open>u\<close>. That holds for \<open>genV4\<close> (\<open>genV4_roundtrip\<close>) and for \<open>genV1\<close> as long as
  \<open>timeLow\<close> stays below \<open>2 ^ 32\<close> (\<open>genV1_roundtrip\<close>). The code departs from it where
  \<open>timeLow\<close> overflows: \<open>timeLow\<close> is \<open>low + tick\<close> with no carry into the middle group and no
  mask, so it reaches \<open>2 ^ 32\<close> when \<open>low\<close> is close to \<open>2 ^ 32\<close>. The script is loaded with
  every draw 0, and \<open>genV1\<close> is called 17 times while the clock reads 1793659055471
  (2026-11-02T22:37:35.471Z), where \<open>low\<close> is \<open>2 ^ 32 - 16\<close>: the 17th UUID has
  \<open>timeLow = 2 ^ 32\<close>, its string has nine digits in the first group, and the parser rejects it.
\<close>

theorem genV1_timeLow_overflow:
  "(let u = fst (repeat_genV1 16 1793659055471 (constant_source 0)
                  (fst (UUIDState_new (constant_source 0))))
    in timeLow u = 4294967296
       \<and> UUID_toString u = ''100000000-d70d-11f1-8000-010000000000''
       \<and> parse (UUID_toString u) = None
       \<and> \<not> equals u (parse (UUID_toString u)))"
  by code_simp

end
